theory Spec2Isabelle
  imports Main "HOL-Library.Word"
begin

unbundle bit_operations_syntax

section \<open>Data model\<close>

text \<open>
  Byte slices are lists of 8-bit words.  A fixed \<^verbatim>\<open>[aes.BlockSize]byte\<close> array is a
  128-bit word holding the sixteen bytes in big-endian order (byte 0 is the most significant),
  a Go \<^verbatim>\<open>uint64\<close> is a 64-bit word and a \<^verbatim>\<open>*big.Int\<close> is an unbounded \<open>int\<close>.
\<close>

type_synonym byte = "8 word"
type_synonym bytes = "byte list"
type_synonym block = "128 word"
type_synonym uint64 = "64 word"

text \<open>Every panic of the source is a value of this type.\<close>

datatype error =
    DomainRange        \<comment> \<open>a constructor refused \<open>lengthBits\<close>\<close>
  | InputOutOfRange    \<comment> \<open>the range check of \<open>ArbitraryN.PermuteInPlace\<close>\<close>
  | SliceBounds        \<comment> \<open>a slice expression out of bounds\<close>
  | NegativeShift      \<comment> \<open>a shift by a negative count\<close>
  | FillBytesOverflow  \<comment> \<open>\<open>big.Int.FillBytes\<close> on a buffer that is too small\<close>

text \<open>
  The primitives the library calls and does not implement: HKDF-SHA256 with an empty salt and
  the label \<^verbatim>\<open>permute.FFX\<close> (16 bytes of output), AES-128 encryption of one block under a
  key, and SHAKE128, given here as the stream of output bytes that follows an absorbed message.
  Every definition below takes them as a parameter.
\<close>

record prims =
  hkdf_key :: "bytes \<Rightarrow> bytes"
  aes_encrypt :: "bytes \<Rightarrow> block \<Rightarrow> block"
  shake128 :: "bytes \<Rightarrow> nat \<Rightarrow> byte"

subsection \<open>Byte order\<close>

text \<open>\<open>big.Int.SetBytes\<close> and \<open>binary.BigEndian.Uint64\<close>: the value of a big-endian byte string.\<close>

definition be_nat :: "bytes \<Rightarrow> nat" where
  "be_nat bs = foldl (\<lambda>acc b. acc * 256 + unat b) 0 bs"

text \<open>The \<open>n\<close> low-order bytes of \<open>x\<close>, most significant first.\<close>

primrec be_bytes :: "nat \<Rightarrow> nat \<Rightarrow> bytes" where
  "be_bytes 0 x = []"
| "be_bytes (Suc n) x = be_bytes n (x div 256) @ [of_nat x]"

text \<open>\<open>binary.LittleEndian.PutUint64\<close> writes \<open>le_bytes 8\<close> of its argument.\<close>

definition le_bytes :: "nat \<Rightarrow> nat \<Rightarrow> bytes" where
  "le_bytes n x = rev (be_bytes n x)"

definition block_of_bytes :: "bytes \<Rightarrow> block" where
  "block_of_bytes bs = of_nat (be_nat bs)"

text \<open>\<open>binary.BigEndian.PutUint64(p.p[8:16], v)\<close>: bytes 8 to 15 are the low 64 bits.\<close>

definition put_uint64_lo :: "block \<Rightarrow> uint64 \<Rightarrow> block" where
  "put_uint64_lo blk v = push_bit 64 (drop_bit 64 blk) OR ucast v"

text \<open>\<open>binary.BigEndian.Uint64(outBytes[8:16])\<close>.\<close>

definition uint64_lo :: "block \<Rightarrow> uint64" where
  "uint64_lo blk = ucast blk"

text \<open>
  \<open>big.Int.Uint64\<close> returns the low 64 bits of the magnitude, \<open>big.Int.Int64\<close> those bits
  negated when the value is negative, and \<open>big.Int.BitLen\<close> the bit length of the magnitude.
\<close>

definition Uint64 :: "int \<Rightarrow> uint64" where
  "Uint64 x = of_int \<bar>x\<bar>"

definition Int64 :: "int \<Rightarrow> uint64" where
  "Int64 x = (if x < 0 then - of_int \<bar>x\<bar> else of_int \<bar>x\<bar>)"

fun bit_len :: "nat \<Rightarrow> nat" where
  "bit_len n = (if n = 0 then 0 else Suc (bit_len (n div 2)))"

declare bit_len.simps [simp del]

definition BitLen :: "int \<Rightarrow> int" where
  "BitLen x = int (bit_len (nat \<bar>x\<bar>))"

section \<open>The AES-class engine (FFX)\<close>

text \<open>
  The fields of \<^verbatim>\<open>type FFX struct\<close>.  \<open>lengthBits\<close> and \<open>rounds\<close> are set once by the
  constructor, after its range check, and are kept as naturals.  The \<^verbatim>\<open>big.Int\<close> scratch
  fields \<open>in\<close> and \<open>masked\<close> are written before every read and are locals here.
\<close>

record FFX =
  ffx_lengthBits :: nat
  ffx_rounds :: nat
  ffx_tweakLen :: int
  ffx_mask :: int
  ffx_p :: block
  ffx_encryptedP :: block
  ffx_q :: bytes
  ffx_inBytes :: block
  ffx_outBytes :: block
  ffx_aes :: "block \<Rightarrow> block"

definition NewFFX :: "prims \<Rightarrow> bytes \<Rightarrow> int \<Rightarrow> error + FFX" where
  "NewFFX pr key lengthBits =
    (if lengthBits < 8 \<or> lengthBits > 128 then Inl DomainRange
     else
       let aesKey = hkdf_key pr key;
           a = aes_encrypt pr aesKey;
           rounds = (if lengthBits \<le> 9 then 36
                     else if lengthBits \<le> 13 then 30
                     else if lengthBits \<le> 19 then 24
                     else if lengthBits \<le> 31 then 18
                     else (12::nat));
           split = lengthBits div 2;
           mask = push_bit (nat (lengthBits - split)) (1::int) - 1;
           P = block_of_bytes
                 [0, 1, 2, 0, 2, of_int lengthBits, of_int split, of_nat rounds,
                  0, 0, 0, 0, 0, 0, 0, 0]
       in Inr \<lparr> ffx_lengthBits = nat lengthBits, ffx_rounds = rounds, ffx_tweakLen = - 1,
                ffx_mask = mask, ffx_p = P, ffx_encryptedP = 0, ffx_q = [],
                ffx_inBytes = 0, ffx_outBytes = 0, ffx_aes = a \<rparr>)"


text \<open>
  \<open>calculateEncryptedP\<close>: the header block is re-encrypted only when the tweak length differs
  from the one the cached \<open>encryptedP\<close> was computed for.
\<close>

definition calculateEncryptedP :: "FFX \<Rightarrow> nat \<Rightarrow> int \<Rightarrow> FFX" where
  "calculateEncryptedP s split tweakLen =
    (if tweakLen = ffx_tweakLen s then s
     else
       let P = put_uint64_lo (ffx_p s) (of_int tweakLen)
       in s\<lparr> ffx_p := P, ffx_encryptedP := ffx_aes s P, ffx_tweakLen := tweakLen \<rparr>)"

text \<open>
  The CBC-MAC loop of \<open>FFX.RoundFunc\<close>.  \<open>remainingQ[:aes.BlockSize]\<close> followed by
  \<open>remainingQ[aes.BlockSize:]\<close> panics when fewer than 16 bytes remain.  The last argument
  counts the iterations performed; the source has no such counter.
\<close>

function cbc_mac :: "(block \<Rightarrow> block) \<Rightarrow> block \<Rightarrow> block \<Rightarrow> bytes \<Rightarrow> nat
    \<Rightarrow> error + (block \<times> block \<times> nat)" where
  "cbc_mac enc inB outB remainingQ iters =
    (if length remainingQ > 0 then
       (if length remainingQ < 16 then Inl SliceBounds
        else
          let blk = take 16 remainingQ;
              rest = drop 16 remainingQ;
              inB' = outB XOR block_of_bytes blk;
              outB' = enc inB'
          in cbc_mac enc inB' outB' rest (Suc iters))
     else Inr (inB, outB, iters))"
  by pat_completeness auto
termination
  by (relation "measure (\<lambda>(enc, inB, outB, remainingQ, iters). length remainingQ)") auto

declare cbc_mac.simps [simp del]

text \<open>
  \<open>FFX.RoundFunc\<close>.  The round index is a natural (the caller counts from 0), \<open>i&1 == 0\<close> is
  \<open>even i\<close>.  \<open>p.q[len(p.q)-8:]\<close> panics on a \<open>q\<close> shorter than 8 bytes, and a shift by
  \<open>64 - bitsToKeep\<close> panics when that count is negative.  The \<open>tweak\<close> argument of the source
  is never read and is left out.
\<close>

definition FFX_RoundFunc :: "FFX \<Rightarrow> nat \<Rightarrow> uint64 \<Rightarrow> error + (FFX \<times> uint64)" where
  "FFX_RoundFunc s i B =
    (let split = ffx_lengthBits s div 2 in
     if length (ffx_q s) < 8 then Inl SliceBounds
     else
       let q = take (length (ffx_q s) - 8) (ffx_q s) @ be_bytes 8 (unat B) in
       case cbc_mac (ffx_aes s) (ffx_inBytes s) (ffx_encryptedP s) q 0 of
         Inl e \<Rightarrow> Inl e
       | Inr (inB, outB, iters) \<Rightarrow>
           let out = uint64_lo outB;
               bitsToKeep = (if even i then split else ffx_lengthBits s - split)
           in if 64 < bitsToKeep then Inl NegativeShift
              else
                let bitsToLose = 64 - bitsToKeep;
                    out = drop_bit bitsToLose (push_bit bitsToLose out)
                in Inr (s\<lparr> ffx_q := q, ffx_inBytes := inB, ffx_outBytes := outB \<rparr>, out))"

text \<open>The padding loop \<open>for len(p.q)%16 != 7 { p.q = append(p.q, 0) }\<close>.\<close>

function pad_q :: "bytes \<Rightarrow> bytes" where
  "pad_q q = (if length q mod 16 \<noteq> 7 then pad_q (q @ [0]) else q)"
  by pat_completeness auto
termination
  by (relation "measure (\<lambda>q. if length q mod 16 \<le> 7 then 7 - length q mod 16
                              else 23 - length q mod 16)")
     (auto simp: mod_Suc)

declare pad_q.simps [simp del]

text \<open>The working buffer \<open>q\<close> that \<open>FFX.PermuteInPlace\<close> builds from the tweak.\<close>

definition build_q :: "bytes \<Rightarrow> bytes" where
  "build_q tweak = pad_q tweak @ [1] @ replicate 8 0"

text \<open>
  The round loop \<open>for i := range p.rounds\<close> of \<open>FFX.PermuteInPlace\<close>: the first argument is
  the number of rounds still to run, the third the round index.
\<close>

primrec ffx_round_loop :: "nat \<Rightarrow> FFX \<Rightarrow> nat \<Rightarrow> uint64 \<Rightarrow> uint64
    \<Rightarrow> error + (FFX \<times> uint64 \<times> uint64)" where
  "ffx_round_loop 0 s i a b = Inr (s, a, b)"
| "ffx_round_loop (Suc k) s i a b =
    (case FFX_RoundFunc s i b of
       Inl e \<Rightarrow> Inl e
     | Inr (s', f) \<Rightarrow> let c = a XOR f in ffx_round_loop k s' (Suc i) b c)"

definition FFX_PermuteInPlace :: "FFX \<Rightarrow> int \<Rightarrow> bytes \<Rightarrow> error + (FFX \<times> int)" where
  "FFX_PermuteInPlace s inOut tweak =
    (let split = ffx_lengthBits s div 2;
         b = Uint64 (inOut AND ffx_mask s);
         a = Uint64 (drop_bit (ffx_lengthBits s - split) inOut);
         s1 = calculateEncryptedP s split (int (length tweak));
         s2 = s1\<lparr> ffx_q := build_q tweak \<rparr>
     in case ffx_round_loop (ffx_rounds s2) s2 0 a b of
          Inl e \<Rightarrow> Inl e
        | Inr (s3, a', b') \<Rightarrow>
            Inr (s3, push_bit (ffx_lengthBits s - split) (uint a') OR uint b'))"

text \<open>
  \<open>FFX.PermuteInt\<close>.  A Go \<open>int\<close> is a 64-bit word read as a signed number; the result is
  \<open>Int64()\<close> of the permuted value.
\<close>

type_synonym go_int = "64 word"

definition FFX_PermuteInt :: "FFX \<Rightarrow> go_int \<Rightarrow> error + (FFX \<times> go_int)" where
  "FFX_PermuteInt s i =
    (case FFX_PermuteInPlace s (sint i) [] of
       Inl e \<Rightarrow> Inl e
     | Inr (s', out) \<Rightarrow> Inr (s', Int64 out))"

section \<open>The XOF-class engine (FeistelSHAKE128)\<close>

text \<open>
  The fields of \<^verbatim>\<open>type FeistelSHAKE128 struct\<close>.  The hash object \<open>h\<close> is the list of
  bytes absorbed since the last \<open>Reset\<close>; the \<^verbatim>\<open>big.Int\<close> scratch fields are locals.
\<close>

record FeistelSHAKE128 =
  fs_key :: bytes
  fs_lengthBits :: nat
  fs_rounds :: nat
  fs_roundScratch :: bytes
  fs_h :: bytes
  fs_xof :: "bytes \<Rightarrow> nat \<Rightarrow> byte"

definition NewPowerOf2 :: "prims \<Rightarrow> bytes \<Rightarrow> int \<Rightarrow> error + FeistelSHAKE128" where
  "NewPowerOf2 pr key lengthBits =
    (if lengthBits \<le> 1 then Inl DomainRange
     else
       let rounds = (if lengthBits \<le> 9 then 36
                     else if lengthBits \<le> 13 then 30
                     else if lengthBits \<le> 19 then 24
                     else if lengthBits \<le> 31 then 18
                     else (12::nat))
       in Inr \<lparr> fs_key = key, fs_lengthBits = nat lengthBits, fs_rounds = rounds,
                fs_roundScratch = [], fs_h = [], fs_xof = shake128 pr \<rparr>)"


text \<open>
  \<open>FeistelSHAKE128.RoundFunc\<close>.  The slices of \<open>roundScratch\<close> are within its length, which
  is at least \<open>(lengthBits+7)/8\<close> after the first statement; \<open>FillBytes\<close> panics when the
  magnitude of \<open>b\<close> needs more than \<open>inLenBytes\<close> bytes.  \<open>h.Read\<close> fills \<open>outBytes\<close> with
  the first \<open>outLenBytes\<close> bytes of the XOF's output.
\<close>

definition FS_RoundFunc :: "FeistelSHAKE128 \<Rightarrow> nat \<Rightarrow> int \<Rightarrow> bytes
    \<Rightarrow> error + (FeistelSHAKE128 \<times> int)" where
  "FS_RoundFunc s round b tweak =
    (let inLenBits = (if even round then fs_lengthBits s div 2
                      else fs_lengthBits s - fs_lengthBits s div 2);
         outLenBits = (if even round then fs_lengthBits s - fs_lengthBits s div 2
                       else fs_lengthBits s div 2);
         scratch0 = (if length (fs_roundScratch s) < (fs_lengthBits s + 7) div 8
                     then replicate ((fs_lengthBits s + 7) div 8) 0
                     else fs_roundScratch s);
         h0 = le_bytes 8 (length (fs_key s)) @ fs_key s @ le_bytes 8 outLenBits
              @ le_bytes 8 round
              @ (if length tweak > 0 then le_bytes 8 (length tweak) @ tweak else []);
         inLenBytes = (inLenBits + 7) div 8
     in if 256 ^ inLenBytes \<le> \<bar>b\<bar> then Inl FillBytesOverflow
        else
          let scratch1 = be_bytes inLenBytes (nat \<bar>b\<bar>) @ drop inLenBytes scratch0;
              h1 = h0 @ take inLenBytes scratch1;
              outLenBytes = (outLenBits + 7) div 8;
              scratch2 = map (fs_xof s h1) [0..<outLenBytes] @ drop outLenBytes scratch1;
              rem = outLenBits mod 8;
              scratch3 = (if rem \<noteq> 0
                          then scratch2[0 := (scratch2 ! 0) AND of_nat (drop_bit (8 - rem) 255)]
                          else scratch2);
              out = int (be_nat (take outLenBytes scratch3))
          in Inr (s\<lparr> fs_roundScratch := scratch3, fs_h := h1 \<rparr>, out))"

text \<open>
  The round loop of \<open>FeistelSHAKE128.PermuteInPlace\<close>; the rotation \<open>a, b, c = b, c, a\<close> of
  the three scratch integers leaves \<open>a\<close> the old \<open>b\<close> and \<open>b\<close> the new \<open>c\<close>.
\<close>

primrec fs_round_loop :: "nat \<Rightarrow> FeistelSHAKE128 \<Rightarrow> bytes \<Rightarrow> nat \<Rightarrow> int \<Rightarrow> int
    \<Rightarrow> error + (FeistelSHAKE128 \<times> int \<times> int)" where
  "fs_round_loop 0 s tweak i a b = Inr (s, a, b)"
| "fs_round_loop (Suc k) s tweak i a b =
    (case FS_RoundFunc s i b tweak of
       Inl e \<Rightarrow> Inl e
     | Inr (s', f) \<Rightarrow> let c = a XOR f in fs_round_loop k s' tweak (Suc i) b c)"

definition FS_PermuteInPlace :: "FeistelSHAKE128 \<Rightarrow> int \<Rightarrow> bytes
    \<Rightarrow> error + (FeistelSHAKE128 \<times> int)" where
  "FS_PermuteInPlace s inOut tweak =
    (let split = fs_lengthBits s div 2;
         mask = push_bit split (1::int) - 1;
         b = inOut AND mask;
         a = drop_bit split inOut
     in case fs_round_loop (fs_rounds s) s tweak 0 a b of
          Inl e \<Rightarrow> Inl e
        | Inr (s', a', b') \<Rightarrow> Inr (s', push_bit split a' OR b'))"

definition FS_PermuteInt :: "FeistelSHAKE128 \<Rightarrow> go_int \<Rightarrow> error + (FeistelSHAKE128 \<times> go_int)" where
  "FS_PermuteInt s i =
    (case FS_PermuteInPlace s (sint i) [] of
       Inl e \<Rightarrow> Inl e
     | Inr (s', out) \<Rightarrow> Inr (s', Int64 out))"

section \<open>The range adapter (ArbitraryN)\<close>

text \<open>
  The interface \<open>Permutation\<close> has the two engines as its implementations; a method call on
  the interface dispatches on the engine.
\<close>

datatype Permutation = PermFFX FFX | PermFeistelSHAKE128 FeistelSHAKE128

fun Permutation_PermuteInPlace :: "Permutation \<Rightarrow> int \<Rightarrow> bytes \<Rightarrow> error + (Permutation \<times> int)" where
  "Permutation_PermuteInPlace (PermFFX p) inOut tweak =
    (case FFX_PermuteInPlace p inOut tweak of
       Inl e \<Rightarrow> Inl e
     | Inr (p', out) \<Rightarrow> Inr (PermFFX p', out))"
| "Permutation_PermuteInPlace (PermFeistelSHAKE128 p) inOut tweak =
    (case FS_PermuteInPlace p inOut tweak of
       Inl e \<Rightarrow> Inl e
     | Inr (p', out) \<Rightarrow> Inr (PermFeistelSHAKE128 p', out))"

fun Permutation_lengthBits :: "Permutation \<Rightarrow> nat" where
  "Permutation_lengthBits (PermFFX p) = ffx_lengthBits p"
| "Permutation_lengthBits (PermFeistelSHAKE128 p) = fs_lengthBits p"

record ArbitraryN =
  an_p :: Permutation
  an_n :: int

definition NewN :: "prims \<Rightarrow> bytes \<Rightarrow> int \<Rightarrow> error + ArbitraryN" where
  "NewN pr key n =
    (let nMinus1 = n - 1;
         bitLen = BitLen nMinus1;
         bitLen = (if bitLen \<le> 1 then 2 else bitLen);
         p2n = (if bitLen \<ge> 8 \<and> bitLen \<le> 128
                then map_sum id PermFFX (NewFFX pr key bitLen)
                else map_sum id PermFeistelSHAKE128 (NewPowerOf2 pr key bitLen))
     in case p2n of
          Inl e \<Rightarrow> Inl e
        | Inr p \<Rightarrow> Inr \<lparr> an_p = p, an_n = n \<rparr>)"

definition NewNInt :: "prims \<Rightarrow> bytes \<Rightarrow> go_int \<Rightarrow> error + ArbitraryN" where
  "NewNInt pr key n = NewN pr key (sint n)"

text \<open>
  The loop \<open>for { inOut = p.p.PermuteInPlace(inOut, tweak); if inOut.Cmp(&p.n) < 0 { return } }\<close>
  has no bound on its iterations: not returning is the value \<open>None\<close>.  The first argument is
  the interface method, so that the loop is defined for every implementation of it.
\<close>

partial_function (option) cycle_walk ::
    "('p \<Rightarrow> int \<Rightarrow> bytes \<Rightarrow> error + ('p \<times> int)) \<Rightarrow> int \<Rightarrow> bytes \<Rightarrow> 'p \<Rightarrow> int
      \<Rightarrow> (error + ('p \<times> int)) option" where
  "cycle_walk permute n tweak p inOut =
    (case permute p inOut tweak of
       Inl e \<Rightarrow> Some (Inl e)
     | Inr (p', out) \<Rightarrow>
         if out < n then Some (Inr (p', out)) else cycle_walk permute n tweak p' out)"

definition ArbitraryN_PermuteInPlace :: "ArbitraryN \<Rightarrow> int \<Rightarrow> bytes
    \<Rightarrow> (error + (ArbitraryN \<times> int)) option" where
  "ArbitraryN_PermuteInPlace s inOut tweak =
    (if inOut \<ge> an_n s then Some (Inl InputOutOfRange)
     else
       case cycle_walk Permutation_PermuteInPlace (an_n s) tweak (an_p s) inOut of
         None \<Rightarrow> None
       | Some (Inl e) \<Rightarrow> Some (Inl e)
       | Some (Inr (p', out)) \<Rightarrow> Some (Inr (s\<lparr> an_p := p' \<rparr>, out)))"

definition ArbitraryN_PermuteInt :: "ArbitraryN \<Rightarrow> go_int
    \<Rightarrow> (error + (ArbitraryN \<times> go_int)) option" where
  "ArbitraryN_PermuteInt s i =
    (case ArbitraryN_PermuteInPlace s (sint i) [] of
       None \<Rightarrow> None
     | Some (Inl e) \<Rightarrow> Some (Inl e)
     | Some (Inr (s', out)) \<Rightarrow> Some (Inr (s', Int64 out)))"

text \<open>
  Stand-ins for the three primitives, used only where a theorem that holds for all primitives
  is applied at concrete arguments.
\<close>

definition toy_prims :: prims where
  "toy_prims = \<lparr> hkdf_key = take 16, aes_encrypt = (\<lambda>k blk. blk + of_nat (be_nat k) + 1),
                 shake128 = (\<lambda>msg i. of_nat (be_nat msg + i)) \<rparr>"

section \<open>Round schedule\<close>

text \<open>
  C7. Both constructors accept every \<open>lengthBits\<close> they support and set the round count from
  \<open>lengthBits\<close> alone, by one table: at most 9 bits give 36 rounds, at most 13 give 30, at
  most 19 give 24, at most 31 give 18, and anything larger gives 12.  The count depends neither
  on the key nor on the primitives.
\<close>

theorem round_schedule:
  "(8 \<le> l \<and> l \<le> 128 \<longrightarrow>
      (\<exists>p. NewFFX pr key l = Inr p \<and>
           ffx_rounds p = (if l \<le> 9 then 36 else if l \<le> 13 then 30 else if l \<le> 19 then 24
                           else if l \<le> 31 then 18 else 12))) \<and>
   (2 \<le> l \<longrightarrow>
      (\<exists>p. NewPowerOf2 pr key l = Inr p \<and>
           fs_rounds p = (if l \<le> 9 then 36 else if l \<le> 13 then 30 else if l \<le> 19 then 24
                          else if l \<le> 31 then 18 else 12)))"
  by (simp add: NewFFX_def NewPowerOf2_def Let_def)

theorem round_schedule_witness:
  "(\<exists>p. NewFFX toy_prims [1, 2] 16 = Inr p \<and> ffx_rounds p = 24) \<and>
   (\<exists>p. NewPowerOf2 toy_prims [1, 2] 16 = Inr p \<and> fs_rounds p = 24)"
  using round_schedule [of 16 toy_prims "[1, 2]"] by simp

section \<open>Deriving the domain width in \<open>NewN\<close>\<close>

lemma bit_len_0 [simp]: "bit_len 0 = 0"
  by (simp add: bit_len.simps)

lemma bit_len_pos: "0 < n \<Longrightarrow> bit_len n = Suc (bit_len (n div 2))"
  by (subst bit_len.simps) simp

lemma bit_len_upper: "n < 2 ^ bit_len n"
proof (induction n rule: bit_len.induct)
  case (1 n)
  show ?case
  proof (cases "n = 0")
    case True
    then show ?thesis by simp
  next
    case False
    with 1 have "n div 2 < 2 ^ bit_len (n div 2)" by simp
    then have "n < 2 * 2 ^ bit_len (n div 2)" by linarith
    with False show ?thesis by (simp add: bit_len_pos)
  qed
qed

lemma bit_len_lower: "0 < n \<Longrightarrow> 2 ^ (bit_len n - 1) \<le> n"
proof (induction n rule: bit_len.induct)
  case (1 n)
  show ?case
  proof (cases "n div 2 = 0")
    case True
    with 1(2) show ?thesis by (simp add: bit_len_pos)
  next
    case False
    with 1 have ih: "2 ^ (bit_len (n div 2) - 1) \<le> n div 2" by simp
    from False have "0 < bit_len (n div 2)" by (simp add: bit_len_pos)
    then have "(2::nat) ^ bit_len (n div 2) = 2 * 2 ^ (bit_len (n div 2) - 1)"
      by (cases "bit_len (n div 2)") simp_all
    with ih have "2 ^ bit_len (n div 2) \<le> n" by linarith
    with 1(2) show ?thesis by (simp add: bit_len_pos)
  qed
qed

lemma bit_len_le_1: "bit_len n \<le> 1 \<longleftrightarrow> n \<le> 1"
proof
  assume "bit_len n \<le> 1"
  then have "(2::nat) ^ bit_len n \<le> 2 ^ 1" by (intro power_increasing) simp_all
  with bit_len_upper [of n] show "n \<le> 1" by simp
next
  assume "n \<le> 1"
  then consider "n = 0" | "n = 1" by linarith
  then show "bit_len n \<le> 1"
    by cases (simp_all add: bit_len_pos)
qed

lemma NewN_shape:
  assumes "1 \<le> n"
  defines "l \<equiv> (if BitLen (n - 1) \<le> 1 then 2 else BitLen (n - 1))"
  shows "NewN pr key n =
     (if 8 \<le> l \<and> l \<le> 128
      then case NewFFX pr key l of Inl e \<Rightarrow> Inl e | Inr p \<Rightarrow> Inr \<lparr> an_p = PermFFX p, an_n = n \<rparr>
      else case NewPowerOf2 pr key l of Inl e \<Rightarrow> Inl e
           | Inr p \<Rightarrow> Inr \<lparr> an_p = PermFeistelSHAKE128 p, an_n = n \<rparr>)"
  by (simp add: NewN_def Let_def l_def split: sum.splits)

lemma NewFFX_ok:
  "8 \<le> l \<Longrightarrow> l \<le> 128 \<Longrightarrow> \<exists>p. NewFFX pr key l = Inr p \<and> ffx_lengthBits p = nat l"
  by (simp add: NewFFX_def Let_def)

lemma NewPowerOf2_ok:
  "2 \<le> l \<Longrightarrow> \<exists>p. NewPowerOf2 pr key l = Inr p \<and> fs_lengthBits p = nat l"
  by (simp add: NewPowerOf2_def Let_def)

text \<open>
  C6. For every \<open>N \<ge> 1\<close>, \<open>NewN\<close> succeeds and gives the engine the bit length of
  \<open>N - 1\<close> clamped to a minimum of 2 as its \<open>lengthBits\<close>.  That width covers the range
  (\<open>N \<le> 2 ^ lengthBits\<close>); it is the smallest such power of two
  (\<open>2 ^ (lengthBits - 1) < N\<close>) whenever \<open>N > 2\<close>, and \<open>N \<le> 2\<close> gives \<open>lengthBits = 2\<close>.
  The engine is the AES-class one exactly when \<open>lengthBits\<close> lies in \<open>[8, 128]\<close>, and the
  XOF-class one otherwise.
\<close>

theorem NewN_lengthBits_and_engine:
  assumes "1 \<le> n"
  shows "\<exists>s. NewN pr key n = Inr s \<and> an_n s = n \<and>
           int (Permutation_lengthBits (an_p s)) = max 2 (BitLen (n - 1)) \<and>
           n \<le> 2 ^ Permutation_lengthBits (an_p s) \<and>
           (2 < n \<longrightarrow> 2 ^ (Permutation_lengthBits (an_p s) - 1) < n) \<and>
           (n \<le> 2 \<longrightarrow> Permutation_lengthBits (an_p s) = 2) \<and>
           ((\<exists>p. an_p s = PermFFX p) \<longleftrightarrow>
              8 \<le> Permutation_lengthBits (an_p s) \<and> Permutation_lengthBits (an_p s) \<le> 128) \<and>
           ((\<exists>p. an_p s = PermFeistelSHAKE128 p) \<longleftrightarrow>
              \<not> (8 \<le> Permutation_lengthBits (an_p s) \<and> Permutation_lengthBits (an_p s) \<le> 128))"
proof -
  define m where "m = nat (n - 1)"
  define l where "l = (if BitLen (n - 1) \<le> 1 then 2 else BitLen (n - 1))"
  have n_eq: "n = int m + 1" using assms by (simp add: m_def)
  have bl: "BitLen (n - 1) = int (bit_len m)"
    using assms by (simp add: BitLen_def m_def)
  have l_max: "l = max 2 (BitLen (n - 1))" by (auto simp: l_def)
  have l2: "2 \<le> l" by (simp add: l_max)
  have upper: "n \<le> 2 ^ nat l"
  proof -
    have "m < 2 ^ bit_len m" by (rule bit_len_upper)
    also have "\<dots> \<le> 2 ^ nat l"
      by (rule power_increasing) (simp_all add: l_max bl)
    finally have "Suc m \<le> 2 ^ nat l" by simp
    then have "int (Suc m) \<le> int (2 ^ nat l)" by (simp only: of_nat_le_iff)
    then show ?thesis by (simp add: n_eq)
  qed
  have lower: "2 ^ (nat l - 1) < n" if "2 < n"
  proof -
    from that have m2: "2 \<le> m" by (simp add: m_def)
    then have "\<not> bit_len m \<le> 1" using bit_len_le_1 [of m] by linarith
    then have l_eq: "nat l = bit_len m" by (simp add: l_def bl)
    from m2 have "2 ^ (bit_len m - 1) \<le> m" by (intro bit_len_lower) simp
    then have "int (2 ^ (bit_len m - 1)) \<le> int m" by (simp only: of_nat_le_iff)
    then show ?thesis by (simp add: l_eq n_eq)
  qed
  have small: "nat l = 2" if "n \<le> 2"
  proof -
    from that assms have "m \<le> 1" by (simp add: m_def)
    then have "bit_len m \<le> 1" using bit_len_le_1 [of m] by blast
    then show ?thesis by (simp add: l_def bl)
  qed
  have shape: "NewN pr key n =
     (if 8 \<le> l \<and> l \<le> 128
      then case NewFFX pr key l of Inl e \<Rightarrow> Inl e | Inr p \<Rightarrow> Inr \<lparr> an_p = PermFFX p, an_n = n \<rparr>
      else case NewPowerOf2 pr key l of Inl e \<Rightarrow> Inl e
           | Inr p \<Rightarrow> Inr \<lparr> an_p = PermFeistelSHAKE128 p, an_n = n \<rparr>)"
    unfolding l_def using assms by (rule NewN_shape)
  show ?thesis
  proof (cases "8 \<le> l \<and> l \<le> 128")
    case True
    then obtain p where p: "NewFFX pr key l = Inr p" "ffx_lengthBits p = nat l"
      using NewFFX_ok by blast
    have "NewN pr key n = Inr \<lparr> an_p = PermFFX p, an_n = n \<rparr>"
      using True p by (simp add: shape)
    moreover have "int (nat l) = max 2 (BitLen (n - 1))" using l2 l_max by simp
    moreover have "8 \<le> nat l \<and> nat l \<le> 128" using True by linarith
    ultimately show ?thesis using p upper lower small by auto
  next
    case False
    obtain p where p: "NewPowerOf2 pr key l = Inr p" "fs_lengthBits p = nat l"
      using NewPowerOf2_ok [OF l2] by blast
    have "NewN pr key n = Inr \<lparr> an_p = PermFeistelSHAKE128 p, an_n = n \<rparr>"
      using False p by (auto simp: shape)
    moreover have "int (nat l) = max 2 (BitLen (n - 1))" using l2 l_max by simp
    moreover have "\<not> (8 \<le> nat l \<and> nat l \<le> 128)" using False l2 by linarith
    ultimately show ?thesis using p upper lower small by auto
  qed
qed

theorem NewN_lengthBits_and_engine_witness:
  "(\<exists>s. NewN toy_prims [1] 5 = Inr s \<and> an_n s = 5 \<and>
       Permutation_lengthBits (an_p s) = 3 \<and> (\<exists>p. an_p s = PermFeistelSHAKE128 p)) \<and>
   (\<exists>s. NewN toy_prims [1] 1000 = Inr s \<and> Permutation_lengthBits (an_p s) = 10 \<and>
       (\<exists>p. an_p s = PermFFX p))"
proof -
  have b4: "BitLen 4 = 3" by (simp add: BitLen_def bit_len.simps)
  have b999: "BitLen 999 = 10" by (simp add: BitLen_def bit_len.simps)
  have h5: "(1::int) \<le> 5" and h1000: "(1::int) \<le> 1000" by simp_all
  from NewN_lengthBits_and_engine [OF h5, of toy_prims "[1]"] b4
  have A: "\<exists>s. NewN toy_prims [1] 5 = Inr s \<and> an_n s = 5 \<and>
       Permutation_lengthBits (an_p s) = 3 \<and> (\<exists>p. an_p s = PermFeistelSHAKE128 p)"
    by auto
  from NewN_lengthBits_and_engine [OF h1000, of toy_prims "[1]"] b999
  have B: "\<exists>s. NewN toy_prims [1] 1000 = Inr s \<and> Permutation_lengthBits (an_p s) = 10 \<and>
       (\<exists>p. an_p s = PermFFX p)"
    by auto
  from A B show ?thesis by blast
qed

section \<open>The working buffer of the AES-class round function\<close>

lemma length_be_bytes [simp]: "length (be_bytes n x) = n"
  by (induction n arbitrary: x) simp_all

lemma length_le_bytes [simp]: "length (le_bytes n x) = n"
  by (simp add: le_bytes_def)

lemma length_pad_q_mod: "length (pad_q q) mod 16 = 7"
proof (induction q rule: pad_q.induct)
  case (1 q)
  then show ?case by (subst pad_q.simps) simp
qed

lemma pad_q_extends: "\<exists>k. pad_q q = q @ replicate k 0"
proof (induction q rule: pad_q.induct)
  case (1 q)
  show ?case
  proof (cases "length q mod 16 \<noteq> 7")
    case True
    with 1 obtain k where "pad_q (q @ [0]) = (q @ [0]) @ replicate k 0" by blast
    then have "pad_q q = q @ replicate (Suc k) 0"
      using True by (subst pad_q.simps) (simp add: replicate_app_Cons_same)
    then show ?thesis by blast
  next
    case False
    then have "pad_q q = q @ replicate 0 0" by (subst pad_q.simps) simp
    then show ?thesis by blast
  qed
qed

lemma length_build_q: "length (build_q tweak) = length (pad_q tweak) + 9"
  by (simp add: build_q_def)

lemma build_q_aligned: "length (build_q tweak) mod 16 = 0"
proof -
  have "(length (pad_q tweak) + 9) mod 16 = (length (pad_q tweak) mod 16 + 9) mod 16"
    by (simp add: mod_add_left_eq)
  then show ?thesis by (simp add: length_build_q length_pad_q_mod)
qed

lemma build_q_ge_16: "16 \<le> length (build_q tweak)"
proof -
  have "0 < length (build_q tweak)" by (simp add: length_build_q)
  with build_q_aligned [of tweak] show ?thesis
    by (metis mod_less not_le_imp_less less_numeral_extra(3))
qed

lemma cbc_mac_aligned:
  "length q mod 16 = 0 \<Longrightarrow>
     \<exists>inB' outB'. cbc_mac enc inB outB q k = Inr (inB', outB', k + length q div 16)"
proof (induction enc inB outB q k rule: cbc_mac.induct)
  case (1 enc inB outB q k)
  show ?case
  proof (cases "length q > 0")
    case False
    then show ?thesis by (subst cbc_mac.simps) simp
  next
    case True
    with "1.prems" have ge: "16 \<le> length q"
      by (metis mod_less not_le_imp_less less_numeral_extra(3))
    then have dr: "length (drop 16 q) mod 16 = 0"
      using "1.prems" by (simp add: mod_diff_right_eq [symmetric] le_mod_geq)
    have cnt: "Suc k + length (drop 16 q) div 16 = k + length q div 16"
      using ge by (simp add: le_div_geq)
    from ge True have nl: "\<not> length q < 16" by simp
    obtain i' o' where
      "cbc_mac enc (outB XOR block_of_bytes (take 16 q))
         (enc (outB XOR block_of_bytes (take 16 q))) (drop 16 q) (Suc k)
       = Inr (i', o', Suc k + length (drop 16 q) div 16)"
      using "1.IH" [OF True nl refl refl refl refl dr] by blast
    then show ?thesis
      using True nl cnt by (subst cbc_mac.simps) (simp add: Let_def)
  qed
qed

text \<open>What the loop leaves in \<open>outBytes\<close> does not depend on the old content of \<open>inBytes\<close>.\<close>

lemma cbc_mac_inBytes_irrelevant:
  "map_sum id snd (cbc_mac enc inB1 outB q k) = map_sum id snd (cbc_mac enc inB2 outB q k)"
  by (subst cbc_mac.simps, subst (2) cbc_mac.simps) (simp add: Let_def)

text \<open>
  C10. For every tweak, the buffer \<open>q\<close> that \<open>FFX.PermuteInPlace\<close> builds has a length that is
  a nonzero multiple of 16, and it keeps that length when \<open>FFX.RoundFunc\<close> overwrites the last
  eight bytes.  On it the CBC-MAC loop never slices out of bounds: it returns after exactly
  \<open>len(q) / 16\<close> iterations, whatever the cipher and the half-value are.
\<close>

theorem q_is_whole_blocks:
  "length (build_q tweak) mod 16 = 0 \<and> 16 \<le> length (build_q tweak) \<and>
   length (take (length (build_q tweak) - 8) (build_q tweak) @ be_bytes 8 (unat B))
     = length (build_q tweak) \<and>
   (\<exists>inB' outB'.
      cbc_mac enc inB outB
        (take (length (build_q tweak) - 8) (build_q tweak) @ be_bytes 8 (unat B)) 0
      = Inr (inB', outB', length (build_q tweak) div 16)) \<and>
   FFX_RoundFunc (s\<lparr> ffx_q := build_q tweak \<rparr>) i B \<noteq> Inl SliceBounds"
proof -
  let ?q = "take (length (build_q tweak) - 8) (build_q tweak) @ be_bytes 8 (unat B)"
  have ge: "16 \<le> length (build_q tweak)" by (rule build_q_ge_16)
  then have len: "length ?q = length (build_q tweak)" by simp
  then have "length ?q mod 16 = 0" by (simp only: build_q_aligned)
  from cbc_mac_aligned [OF this, of enc inB outB 0] len
  have run: "\<exists>inB' outB'. cbc_mac enc inB outB ?q 0
      = Inr (inB', outB', length (build_q tweak) div 16)"
    by simp
  have "length ?q mod 16 = 0" using len by (simp only: build_q_aligned)
  from cbc_mac_aligned [OF this, of "ffx_aes s" "ffx_inBytes s" "ffx_encryptedP s" 0]
  obtain i' o' where
    "cbc_mac (ffx_aes s) (ffx_inBytes s) (ffx_encryptedP s) ?q 0
       = Inr (i', o', 0 + length ?q div 16)" by blast
  then have "FFX_RoundFunc (s\<lparr> ffx_q := build_q tweak \<rparr>) i B \<noteq> Inl SliceBounds"
    using ge by (simp add: FFX_RoundFunc_def Let_def)
  with ge len run show ?thesis by (simp only: build_q_aligned) simp
qed

section \<open>The alternating Feistel network\<close>

text \<open>
  The round loops of both engines compute \<open>feistel\<close>, once the round function is known to
  return the same value whatever the scratch state is.  \<open>feistel k F i a b\<close> runs \<open>k\<close> rounds
  from round index \<open>i\<close> on the halves \<open>a\<close> and \<open>b\<close>.
\<close>

primrec feistel :: "nat \<Rightarrow> (nat \<Rightarrow> 'a \<Rightarrow> 'a) \<Rightarrow> nat \<Rightarrow> 'a::semiring_bit_operations \<Rightarrow> 'a
    \<Rightarrow> 'a \<times> 'a" where
  "feistel 0 F i a b = (a, b)"
| "feistel (Suc k) F i a b = feistel k F (Suc i) b (a XOR F i b)"

lemma xor_cancel_right:
  fixes a b f :: "'a::semiring_bit_operations"
  assumes "a XOR f = b XOR f"
  shows "a = b"
proof -
  have "a = (a XOR f) XOR f" by (simp add: xor.assoc)
  also have "\<dots> = (b XOR f) XOR f" by (simp only: assms)
  also have "\<dots> = b" by (simp add: xor.assoc)
  finally show ?thesis .
qed

lemma feistel_inj:
  "feistel k F i a b = feistel k F i a' b' \<Longrightarrow> a = a' \<and> b = b'"
proof (induction k arbitrary: i a b a' b')
  case 0
  then show ?case by simp
next
  case (Suc k)
  from Suc.prems have "feistel k F (Suc i) b (a XOR F i b) = feistel k F (Suc i) b' (a' XOR F i b')"
    by simp
  from Suc.IH [OF this] have b: "b = b'" and x: "a XOR F i b = a' XOR F i b'" by blast+
  from x have "a XOR F i b = a' XOR F i b" by (simp only: b)
  then have "a = a'" by (rule xor_cancel_right)
  with b show ?case by simp
qed

text \<open>
  Widths: in round \<open>i\<close> the half \<open>a\<close> has \<open>w i\<close> bits and \<open>b\<close> has \<open>w (i + 1)\<close> bits, the
  round function returns \<open>w i\<close> bits, and the widths alternate.
\<close>

lemma feistel_widths:
  assumes F: "\<And>i b. take_bit (w i) (F i b) = F i b"
    and alt: "\<And>i. w (Suc (Suc i)) = w i"
  shows "take_bit (w i) a = a \<Longrightarrow> take_bit (w (Suc i)) b = b \<Longrightarrow>
         feistel k F i a b = (a', b') \<Longrightarrow>
         take_bit (w (i + k)) a' = a' \<and> take_bit (w (Suc (i + k))) b' = b'"
proof (induction k arbitrary: i a b)
  case 0
  then show ?case by simp
next
  case (Suc k)
  have c: "take_bit (w (Suc (Suc i))) (a XOR F i b) = a XOR F i b"
    using Suc.prems(1) F [of i b] by (simp add: alt)
  from Suc.prems(3) have "feistel k F (Suc i) b (a XOR F i b) = (a', b')" by simp
  from Suc.IH [OF Suc.prems(2) c this] show ?case by simp
qed

lemma alt_even:
  assumes alt: "\<And>i. w (Suc (Suc i)) = w i" and "even k"
  shows "w k = w 0" and "w (Suc k) = w (Suc 0)"
proof -
  from \<open>even k\<close> obtain m where k: "k = 2 * m" by (elim evenE)
  have "w (2 * m) = w 0 \<and> w (Suc (2 * m)) = w (Suc 0)"
    by (induction m) (simp_all add: alt)
  with k show "w k = w 0" and "w (Suc k) = w (Suc 0)" by simp_all
qed

subsection \<open>Splitting and joining integers\<close>

lemma join_drop:
  fixes A B :: int
  assumes "take_bit n B = B"
  shows "drop_bit n (push_bit n A OR B) = A"
proof -
  have "drop_bit n B = drop_bit n (take_bit n B)" by (simp only: assms)
  also have "\<dots> = 0" by (simp add: drop_bit_take_bit)
  finally show ?thesis by (simp add: drop_bit_push_bit)
qed

lemma join_take:
  fixes A B :: int
  assumes "take_bit n B = B"
  shows "take_bit n (push_bit n A OR B) = B"
  using assms by (simp add: take_bit_push_bit)

lemma join_fits:
  fixes A B :: int
  assumes "take_bit n B = B" and "take_bit m A = A"
  shows "take_bit (m + n) (push_bit n A OR B) = push_bit n A OR B"
proof -
  have "take_bit (m + n) (take_bit n B) = take_bit n B" by (simp add: min_def)
  then have B: "take_bit (m + n) B = B" by (simp only: assms)
  have "take_bit (m + n) (push_bit n A) = push_bit n (take_bit m A)"
    by (simp add: take_bit_push_bit)
  with B assms show ?thesis by simp
qed

lemma split_join:
  fixes x :: int
  shows "push_bit n (drop_bit n x) OR take_bit n x = x"
  by (rule bit_eqI) (auto simp: bit_simps)

lemma split_fits:
  fixes x :: int
  assumes "take_bit (m + n) x = x"
  shows "take_bit m (drop_bit n x) = drop_bit n x"
proof -
  have "take_bit m (drop_bit n x) = drop_bit n (take_bit (m + n) x)"
    by (simp add: take_bit_drop_bit)
  with assms show ?thesis by simp
qed

lemma and_low_mask:
  fixes x :: int
  shows "x AND (push_bit n 1 - 1) = take_bit n x"
  by (simp add: take_bit_eq_mask mask_eq_exp_minus_1)

lemma fits_iff: "take_bit n (x::int) = x \<longleftrightarrow> 0 \<le> x \<and> x < 2 ^ n"
  by (rule take_bit_int_eq_self_iff)

section \<open>Big-endian byte strings\<close>

lemma be_nat_Nil [simp]: "be_nat [] = 0"
  by (simp add: be_nat_def)

lemma be_nat_snoc [simp]: "be_nat (xs @ [b]) = be_nat xs * 256 + unat b"
  by (simp add: be_nat_def)

lemma be_nat_less: "be_nat xs < 256 ^ length xs"
proof (induction xs rule: rev_induct)
  case Nil
  then show ?case by simp
next
  case (snoc b xs)
  have "unat b < 256" using unsigned_less [of b] by simp
  with snoc have "be_nat xs * 256 + unat b < (be_nat xs + 1) * 256" by simp
  also have "\<dots> \<le> 256 ^ length xs * 256" using snoc by (intro mult_right_mono) simp_all
  finally show ?case by simp
qed

lemma be_nat_append: "be_nat (xs @ ys) = be_nat xs * 256 ^ length ys + be_nat ys"
  by (induction ys rule: rev_induct) (simp_all add: algebra_simps flip: append_assoc)

lemma be_nat_Cons: "be_nat (b # xs) = unat b * 256 ^ length xs + be_nat xs"
  using be_nat_append [of "[b]" xs] by (simp add: be_nat_def)

lemma be_nat_be_bytes: "be_nat (be_bytes n x) = x mod 256 ^ n"
proof (induction n arbitrary: x)
  case 0
  then show ?case by simp
next
  case (Suc n)
  have "unat (of_nat x :: byte) = x mod 256" by (simp add: unat_of_nat)
  then have "be_nat (be_bytes (Suc n) x) = (x div 256 mod 256 ^ n) * 256 + x mod 256"
    by (simp add: Suc)
  also have "\<dots> = x mod 256 ^ Suc n"
    by (simp add: mod_mult2_eq mult.commute)
  finally show ?case .
qed

lemma take_masked_head:
  "length X = k \<Longrightarrow>
     take k (if c then (X @ Y)[0 := ((X @ Y) ! 0) AND m] else X @ Y)
       = (if c then X[0 := X ! 0 AND m] else X)"
  by (cases X) auto

lemma if_not_P': "(if \<not> c then x else y) = (if c then y else x)"
  by simp

lemma take_length_append: "length xs = n \<Longrightarrow> take n (xs @ ys) = xs"
  by simp

lemma map_sum_if: "map_sum f g (if c then x else y) = (if c then map_sum f g x else map_sum f g y)"
  by simp

lemma FS_RoundFunc_value_cong:
  assumes "fs_key t = fs_key s" and "fs_lengthBits t = fs_lengthBits s"
    and "fs_xof t = fs_xof s"
  shows "map_sum id snd (FS_RoundFunc t i b tw) = map_sum id snd (FS_RoundFunc s i b tw)"
  unfolding FS_RoundFunc_def
  by (simp only: assms Let_def take_length_append take_masked_head length_be_bytes length_map
        length_upt diff_zero map_sum_if map_sum.simps snd_conv)




text \<open>
  The width of the half \<open>a\<close>, and of the round function's output, in round \<open>i\<close>
  (\<open>outLenBits\<close>); the half \<open>b\<close> has the width of the next round (\<open>inLenBits\<close>).
\<close>

definition fs_width :: "nat \<Rightarrow> nat \<Rightarrow> nat" where
  "fs_width l i = (if even i then l - l div 2 else l div 2)"

definition fs_in_width :: "nat \<Rightarrow> nat \<Rightarrow> nat" where
  "fs_in_width l i = (if even i then l div 2 else l - l div 2)"

lemma fs_in_width: "fs_in_width l i = fs_width l (Suc i)"
  by (simp add: fs_in_width_def fs_width_def)

lemma FS_RoundFunc_unfold:
  "\<exists>scr h X.
    FS_RoundFunc s i b tw =
      (if 256 ^ ((fs_in_width (fs_lengthBits s) i + 7) div 8) \<le> \<bar>b\<bar>
       then Inl FillBytesOverflow
       else Inr (s\<lparr> fs_roundScratch := scr, fs_h := h \<rparr>,
                 int (be_nat (if fs_width (fs_lengthBits s) i mod 8 \<noteq> 0
                              then X[0 := X ! 0 AND
                                of_nat (drop_bit (8 - fs_width (fs_lengthBits s) i mod 8) 255)]
                              else X)))) \<and>
    length X = (fs_width (fs_lengthBits s) i + 7) div 8"
  unfolding FS_RoundFunc_def fs_width_def fs_in_width_def
  apply (simp only: Let_def take_length_append take_masked_head length_be_bytes length_map
        length_upt diff_zero)
  apply (intro exI conjI)
   apply (rule refl)
  apply simp
  done


lemma low_bits_mask:
  assumes "0 < r" and "r < 8"
  shows "(of_nat (drop_bit (8 - r) (255::nat)) :: byte) = mask r"
proof -
  from assms consider "r = 1" | "r = 2" | "r = 3" | "r = 4" | "r = 5" | "r = 6" | "r = 7"
    by linarith
  then show ?thesis
    by cases (simp_all add: drop_bit_eq_div mask_eq_exp_minus_1)
qed

lemma masked_bytes_less:
  assumes len: "length X = (w + 7) div 8"
  shows "be_nat (if w mod 8 \<noteq> 0
                 then X[0 := X ! 0 AND of_nat (drop_bit (8 - w mod 8) 255)]
                 else X) < 2 ^ w"
proof (cases "w mod 8 = 0")
  case True
  then have "w = 8 * ((w + 7) div 8)" by presburger
  then have "w = 8 * length X" using len by simp
  moreover have "be_nat X < 256 ^ length X" by (rule be_nat_less)
  moreover have "(256::nat) ^ length X = 2 ^ (8 * length X)" by (simp add: power_mult)
  ultimately show ?thesis using True by simp
next
  case False
  define r where "r = w mod 8"
  with False have r: "0 < r" "r < 8" by simp_all
  from False have "0 < (w + 7) div 8" by presburger
  with len have "0 < length X" by simp
  then obtain x xs where X: "X = x # xs" by (cases X) auto
  have "(w + 7) div 8 = Suc (w div 8)" using False by presburger
  then have "length xs = w div 8" using len by (simp add: X)
  then have w: "w = 8 * length xs + r" by (simp add: r_def)
  have "x AND of_nat (drop_bit (8 - r) 255) = take_bit r x"
    by (simp add: low_bits_mask [OF r] take_bit_eq_mask)
  moreover have "unat (take_bit r x) < 2 ^ r"
    by (simp add: unsigned_take_bit_eq)
  ultimately have hd: "unat (x AND of_nat (drop_bit (8 - r) 255)) + 1 \<le> 2 ^ r" by simp
  have "be_nat ((x AND of_nat (drop_bit (8 - r) 255)) # xs)
          = unat (x AND of_nat (drop_bit (8 - r) 255)) * 256 ^ length xs + be_nat xs"
    by (rule be_nat_Cons)
  also have "\<dots> < (unat (x AND of_nat (drop_bit (8 - r) 255)) + 1) * 256 ^ length xs"
    using be_nat_less [of xs] by simp
  also have "\<dots> \<le> 2 ^ r * 256 ^ length xs"
    using hd by (intro mult_right_mono) simp_all
  also have "\<dots> = 2 ^ w" by (simp add: w power_add power_mult)
  finally show ?thesis using False by (simp add: X r_def)
qed

section \<open>The XOF-class engine is a Feistel network\<close>

text \<open>The value \<open>RoundFunc\<close> returns (0 where it panics).\<close>

definition fs_F :: "FeistelSHAKE128 \<Rightarrow> bytes \<Rightarrow> nat \<Rightarrow> int \<Rightarrow> int" where
  "fs_F s tweak i b = (case FS_RoundFunc s i b tweak of Inl e \<Rightarrow> 0 | Inr (s', f) \<Rightarrow> f)"

text \<open>
  Two engine states with the same key, width, round count and XOF: they differ at most in the
  scratch buffer and the hash object.
\<close>

definition fs_same :: "FeistelSHAKE128 \<Rightarrow> FeistelSHAKE128 \<Rightarrow> bool" where
  "fs_same s t \<longleftrightarrow> fs_key t = fs_key s \<and> fs_lengthBits t = fs_lengthBits s \<and>
     fs_rounds t = fs_rounds s \<and> fs_xof t = fs_xof s"

lemma fs_same_refl [simp]: "fs_same s s"
  by (simp add: fs_same_def)

lemma fs_same_trans: "fs_same s t \<Longrightarrow> fs_same t u \<Longrightarrow> fs_same s u"
  by (simp add: fs_same_def)

lemma fs_F_same: "fs_same s t \<Longrightarrow> fs_F t tw i b = fs_F s tw i b"
proof -
  assume "fs_same s t"
  then have "map_sum id snd (FS_RoundFunc t i b tw) = map_sum id snd (FS_RoundFunc s i b tw)"
    by (intro FS_RoundFunc_value_cong) (simp_all add: fs_same_def)
  then show ?thesis
    by (cases "FS_RoundFunc t i b tw"; cases "FS_RoundFunc s i b tw")
       (auto simp: fs_F_def)
qed

lemma FS_RoundFunc_same: "FS_RoundFunc s i b tw = Inr (s', f) \<Longrightarrow> fs_same s s'"
  using FS_RoundFunc_unfold [of s i b tw]
  by (auto simp: fs_same_def split: if_splits)

lemma bytes_cover: "(2::int) ^ n \<le> 256 ^ ((n + 7) div 8)"
proof -
  have "(2::int) ^ n \<le> 2 ^ (8 * ((n + 7) div 8))"
    by (rule power_increasing) simp_all
  also have "\<dots> = 256 ^ ((n + 7) div 8)" by (simp add: power_mult)
  finally show ?thesis .
qed

lemma FS_RoundFunc_total:
  assumes "take_bit (fs_width (fs_lengthBits s) (Suc i)) b = b"
  shows "\<exists>s'. FS_RoundFunc s i b tw = Inr (s', fs_F s tw i b) \<and> fs_same s s'"
proof -
  let ?w = "fs_in_width (fs_lengthBits s) i"
  from assms have "0 \<le> b" and "b < 2 ^ ?w"
    by (simp_all add: take_bit_int_eq_self_iff fs_in_width)
  with bytes_cover [of ?w] have "\<not> 256 ^ ((?w + 7) div 8) \<le> \<bar>b\<bar>" by simp
  with FS_RoundFunc_unfold [of s i b tw]
  obtain s' f where r: "FS_RoundFunc s i b tw = Inr (s', f)" by auto
  then have "fs_F s tw i b = f" by (simp add: fs_F_def)
  with r FS_RoundFunc_same [OF r] show ?thesis by blast
qed

lemma fs_F_fits:
  "take_bit (fs_width (fs_lengthBits s) i) (fs_F s tw i b) = fs_F s tw i b"
proof -
  let ?w = "fs_width (fs_lengthBits s) i"
  from FS_RoundFunc_unfold [of s i b tw] obtain scr h X where
    eq: "FS_RoundFunc s i b tw =
      (if 256 ^ ((fs_in_width (fs_lengthBits s) i + 7) div 8) \<le> \<bar>b\<bar>
       then Inl FillBytesOverflow
       else Inr (s\<lparr> fs_roundScratch := scr, fs_h := h \<rparr>,
                 int (be_nat (if ?w mod 8 \<noteq> 0
                              then X[0 := X ! 0 AND of_nat (drop_bit (8 - ?w mod 8) 255)]
                              else X))))"
    and len: "length X = (?w + 7) div 8" by blast
  define v where "v = be_nat (if ?w mod 8 \<noteq> 0
                              then X[0 := X ! 0 AND of_nat (drop_bit (8 - ?w mod 8) 255)]
                              else X)"
  have "v < 2 ^ ?w" unfolding v_def using len by (rule masked_bytes_less)
  then have "int v < 2 ^ ?w" by (metis of_nat_less_iff of_nat_numeral of_nat_power)
  then have v: "take_bit ?w (int v) = int v" by (simp add: take_bit_int_eq_self_iff)
  have "fs_F s tw i b = 0 \<or> fs_F s tw i b = int v"
    unfolding fs_F_def eq v_def by simp
  with v show ?thesis by auto
qed

lemma and_exp_minus_1: "(x::int) AND 2 ^ n - 1 = take_bit n x"
  by (simp add: take_bit_eq_mask mask_eq_exp_minus_1)

lemma fs_width_alt: "fs_width l (Suc (Suc i)) = fs_width l i"
  by (simp add: fs_width_def)

lemma fs_round_loop_feistel:
  assumes "fs_same s t"
    and "take_bit (fs_width (fs_lengthBits s) i) a = a"
    and "take_bit (fs_width (fs_lengthBits s) (Suc i)) b = b"
  shows "\<exists>t'. fs_round_loop k t tw i a b = Inr (t', feistel k (fs_F s tw) i a b) \<and> fs_same s t'"
  using assms
proof (induction k arbitrary: t i a b)
  case 0
  then show ?case by simp
next
  case (Suc k)
  let ?w = "fs_width (fs_lengthBits s)"
  from Suc.prems(1) have L: "fs_lengthBits t = fs_lengthBits s" by (simp add: fs_same_def)
  from Suc.prems(3) have "take_bit (fs_width (fs_lengthBits t) (Suc i)) b = b"
    by (simp only: L)
  from FS_RoundFunc_total [OF this, of tw]
  obtain t1 where r: "FS_RoundFunc t i b tw = Inr (t1, fs_F t tw i b)" and st: "fs_same t t1"
    by blast
  have F: "fs_F t tw i b = fs_F s tw i b" using Suc.prems(1) by (rule fs_F_same)
  have s1: "fs_same s t1" using Suc.prems(1) st by (rule fs_same_trans)
  have c: "take_bit (?w (Suc (Suc i))) (a XOR fs_F s tw i b) = a XOR fs_F s tw i b"
    using Suc.prems(2) fs_F_fits [of s i tw b] by (simp add: fs_width_alt)
  from Suc.IH [OF s1 Suc.prems(3) c]
  obtain t' where "fs_round_loop k t1 tw (Suc i) b (a XOR fs_F s tw i b)
        = Inr (t', feistel k (fs_F s tw) (Suc i) b (a XOR fs_F s tw i b))"
    and "fs_same s t'" by blast
  then show ?case using r F by simp
qed

text \<open>The permutation the engine computes, as a function of the input value alone.\<close>

definition fs_perm :: "FeistelSHAKE128 \<Rightarrow> bytes \<Rightarrow> int \<Rightarrow> int" where
  "fs_perm s tw x =
    (let split = fs_lengthBits s div 2;
         (a, b) = feistel (fs_rounds s) (fs_F s tw) 0 (drop_bit split x) (take_bit split x)
     in push_bit split a OR b)"

lemma fs_perm_same: "fs_same s t \<Longrightarrow> fs_perm t tw x = fs_perm s tw x"
proof -
  assume st: "fs_same s t"
  then have "fs_F t tw = fs_F s tw" by (intro ext) (rule fs_F_same)
  with st show ?thesis by (simp add: fs_perm_def fs_same_def)
qed

lemma FS_PermuteInPlace_feistel:
  assumes x: "take_bit (fs_lengthBits s) x = x"
  shows "\<exists>s'. FS_PermuteInPlace s x tw = Inr (s', fs_perm s tw x) \<and> fs_same s s'"
proof -
  let ?L = "fs_lengthBits s"
  let ?sp = "?L div 2"
  have L: "(?L - ?sp) + ?sp = ?L" by simp
  have a: "take_bit (fs_width ?L 0) (drop_bit ?sp x) = drop_bit ?sp x"
    unfolding fs_width_def using x by (simp add: split_fits L)
  have b: "take_bit (fs_width ?L (Suc 0)) (take_bit ?sp x) = take_bit ?sp x"
    by (simp add: fs_width_def)
  from fs_round_loop_feistel [OF fs_same_refl a b, of "fs_rounds s" tw]
  obtain s' where
    loop: "fs_round_loop (fs_rounds s) s tw 0 (drop_bit ?sp x) (take_bit ?sp x)
        = Inr (s', feistel (fs_rounds s) (fs_F s tw) 0 (drop_bit ?sp x) (take_bit ?sp x))"
    and same: "fs_same s s'" by blast
  have "FS_PermuteInPlace s x tw = Inr (s', fs_perm s tw x)"
    by (simp add: FS_PermuteInPlace_def fs_perm_def Let_def and_exp_minus_1 loop split: prod.splits)
  with same show ?thesis by blast
qed

lemma fs_perm_in_range:
  assumes x: "take_bit (fs_lengthBits s) x = x" and ev: "even (fs_rounds s)"
  shows "take_bit (fs_lengthBits s) (fs_perm s tw x) = fs_perm s tw x"
proof -
  let ?L = "fs_lengthBits s"
  let ?sp = "?L div 2"
  let ?w = "fs_width ?L"
  obtain a' b' where f: "feistel (fs_rounds s) (fs_F s tw) 0 (drop_bit ?sp x) (take_bit ?sp x)
      = (a', b')" by (cases "feistel (fs_rounds s) (fs_F s tw) 0 (drop_bit ?sp x) (take_bit ?sp x)")
  have L: "(?L - ?sp) + ?sp = ?L" by simp
  have a: "take_bit (?w 0) (drop_bit ?sp x) = drop_bit ?sp x"
    unfolding fs_width_def using x by (simp add: split_fits L)
  have b: "take_bit (?w (Suc 0)) (take_bit ?sp x) = take_bit ?sp x"
    by (simp add: fs_width_def)
  have "take_bit (?w (0 + fs_rounds s)) a' = a' \<and> take_bit (?w (Suc (0 + fs_rounds s))) b' = b'"
    by (rule feistel_widths [where F = "fs_F s tw" and w = ?w, OF _ _ a b f])
       (simp_all add: fs_F_fits fs_width_alt)
  moreover have "?w (fs_rounds s) = ?w 0" "?w (Suc (fs_rounds s)) = ?w (Suc 0)"
    by (rule alt_even [where w = ?w, OF _ ev], simp add: fs_width_alt)+
  ultimately have a': "take_bit (?L - ?sp) a' = a'" and b': "take_bit ?sp b' = b'"
    by (simp_all add: fs_width_def)
  have "take_bit ((?L - ?sp) + ?sp) (push_bit ?sp a' OR b') = push_bit ?sp a' OR b'"
    using b' a' by (rule join_fits)
  then show ?thesis by (simp add: fs_perm_def f)
qed

lemma fs_perm_inj:
  assumes x: "take_bit (fs_lengthBits s) x = x" and y: "take_bit (fs_lengthBits s) y = y"
    and ev: "even (fs_rounds s)" and eq: "fs_perm s tw x = fs_perm s tw y"
  shows "x = y"
proof -
  let ?L = "fs_lengthBits s"
  let ?sp = "?L div 2"
  let ?w = "fs_width ?L"
  let ?fx = "feistel (fs_rounds s) (fs_F s tw) 0 (drop_bit ?sp x) (take_bit ?sp x)"
  let ?fy = "feistel (fs_rounds s) (fs_F s tw) 0 (drop_bit ?sp y) (take_bit ?sp y)"
  obtain ax bx where fx: "?fx = (ax, bx)" by (cases ?fx)
  obtain ay by' where fy: "?fy = (ay, by')" by (cases ?fy)
  have L: "(?L - ?sp) + ?sp = ?L" by simp
  have alt: "\<And>i. ?w (Suc (Suc i)) = ?w i" by (rule fs_width_alt)
  have fits: "\<And>i b. take_bit (?w i) (fs_F s tw i b) = fs_F s tw i b" by (rule fs_F_fits)
  have w1: "?w (Suc (0 + fs_rounds s)) = ?sp"
    using alt_even(2) [where w = ?w, OF alt ev] by (simp add: fs_width_def)
  have "take_bit (?w 0) (drop_bit ?sp x) = drop_bit ?sp x"
    unfolding fs_width_def using x by (simp add: split_fits L)
  moreover have "take_bit (?w (Suc 0)) (take_bit ?sp x) = take_bit ?sp x"
    by (simp add: fs_width_def)
  ultimately have "take_bit (?w (0 + fs_rounds s)) ax = ax
      \<and> take_bit (?w (Suc (0 + fs_rounds s))) bx = bx"
    using fx by (intro feistel_widths [where F = "fs_F s tw" and w = ?w, OF fits alt])
  then have bx: "take_bit ?sp bx = bx" by (simp only: w1)
  have "take_bit (?w 0) (drop_bit ?sp y) = drop_bit ?sp y"
    unfolding fs_width_def using y by (simp add: split_fits L)
  moreover have "take_bit (?w (Suc 0)) (take_bit ?sp y) = take_bit ?sp y"
    by (simp add: fs_width_def)
  ultimately have "take_bit (?w (0 + fs_rounds s)) ay = ay
      \<and> take_bit (?w (Suc (0 + fs_rounds s))) by' = by'"
    using fy by (intro feistel_widths [where F = "fs_F s tw" and w = ?w, OF fits alt])
  then have by': "take_bit ?sp by' = by'" by (simp only: w1)
  from eq have j: "push_bit ?sp ax OR bx = push_bit ?sp ay OR by'"
    by (simp add: fs_perm_def fx fy)
  have "ax = drop_bit ?sp (push_bit ?sp ax OR bx)" using bx by (simp only: join_drop)
  also have "\<dots> = ay" unfolding j using by' by (rule join_drop)
  finally have a_eq: "ax = ay" .
  have "bx = take_bit ?sp (push_bit ?sp ax OR bx)" using bx by (simp only: join_take)
  also have "\<dots> = by'" unfolding j using by' by (rule join_take)
  finally have b_eq: "bx = by'" .
  from a_eq b_eq fx fy have "?fx = ?fy" by simp
  then have "drop_bit ?sp x = drop_bit ?sp y \<and> take_bit ?sp x = take_bit ?sp y"
    by (rule feistel_inj)
  then have "push_bit ?sp (drop_bit ?sp x) OR take_bit ?sp x
      = push_bit ?sp (drop_bit ?sp y) OR take_bit ?sp y" by simp
  then show ?thesis by (simp only: split_join)
qed

section \<open>The AES-class engine is a Feistel network\<close>

text \<open>The width of the half \<open>a\<close>, and of the round function's output (\<open>bitsToKeep\<close>), in round \<open>i\<close>.\<close>

definition ffx_width :: "nat \<Rightarrow> nat \<Rightarrow> nat" where
  "ffx_width l i = (if even i then l div 2 else l - l div 2)"

text \<open>The value \<open>RoundFunc\<close> returns (0 where it panics).\<close>

definition ffx_F :: "FFX \<Rightarrow> nat \<Rightarrow> uint64 \<Rightarrow> uint64" where
  "ffx_F s i B = (case FFX_RoundFunc s i B of Inl e \<Rightarrow> 0 | Inr (s', f) \<Rightarrow> f)"

text \<open>
  Two engine states that \<open>RoundFunc\<close> cannot tell apart: the same width, cipher and encrypted
  header, and the same \<open>q\<close> but for its last eight bytes.
\<close>

definition ffx_same :: "FFX \<Rightarrow> FFX \<Rightarrow> bool" where
  "ffx_same s t \<longleftrightarrow> ffx_lengthBits t = ffx_lengthBits s \<and> ffx_aes t = ffx_aes s \<and>
     ffx_encryptedP t = ffx_encryptedP s \<and> length (ffx_q t) = length (ffx_q s) \<and>
     take (length (ffx_q s) - 8) (ffx_q t) = take (length (ffx_q s) - 8) (ffx_q s)"

lemma ffx_same_refl [simp]: "ffx_same s s"
  by (simp add: ffx_same_def)

lemma ffx_same_trans: "ffx_same s t \<Longrightarrow> ffx_same t u \<Longrightarrow> ffx_same s u"
  by (simp add: ffx_same_def)

lemma FFX_RoundFunc_value_cong:
  assumes "ffx_same s t"
  shows "map_sum id snd (FFX_RoundFunc t i B) = map_sum id snd (FFX_RoundFunc s i B)"
proof -
  let ?q = "take (length (ffx_q s) - 8) (ffx_q s) @ be_bytes 8 (unat B)"
  have c: "map_sum id snd (cbc_mac (ffx_aes s) (ffx_inBytes t) (ffx_encryptedP s) ?q 0)
      = map_sum id snd (cbc_mac (ffx_aes s) (ffx_inBytes s) (ffx_encryptedP s) ?q 0)"
    by (rule cbc_mac_inBytes_irrelevant)
  show ?thesis
    using assms c
    by (cases "cbc_mac (ffx_aes s) (ffx_inBytes t) (ffx_encryptedP s) ?q 0";
        cases "cbc_mac (ffx_aes s) (ffx_inBytes s) (ffx_encryptedP s) ?q 0")
       (auto simp: FFX_RoundFunc_def ffx_same_def Let_def)
qed

lemma ffx_F_same: "ffx_same s t \<Longrightarrow> ffx_F t i B = ffx_F s i B"
proof -
  assume "ffx_same s t"
  then have "map_sum id snd (FFX_RoundFunc t i B) = map_sum id snd (FFX_RoundFunc s i B)"
    by (rule FFX_RoundFunc_value_cong)
  then show ?thesis
    by (cases "FFX_RoundFunc t i B"; cases "FFX_RoundFunc s i B") (auto simp: ffx_F_def)
qed

lemma FFX_RoundFunc_same: "FFX_RoundFunc s i B = Inr (s', f) \<Longrightarrow> ffx_same s s'"
  by (auto simp: FFX_RoundFunc_def Let_def ffx_same_def split: if_splits sum.splits)

text \<open>A state on which \<open>RoundFunc\<close> cannot panic.\<close>

definition ffx_ready :: "FFX \<Rightarrow> bool" where
  "ffx_ready s \<longleftrightarrow> ffx_lengthBits s \<le> 128 \<and> 16 \<le> length (ffx_q s) \<and>
     length (ffx_q s) mod 16 = 0"

lemma ffx_ready_same: "ffx_same s t \<Longrightarrow> ffx_ready s \<Longrightarrow> ffx_ready t"
  by (simp add: ffx_same_def ffx_ready_def)

lemma FFX_RoundFunc_total:
  assumes "ffx_ready s"
  shows "\<exists>s'. FFX_RoundFunc s i B = Inr (s', ffx_F s i B) \<and> ffx_same s s'"
proof -
  let ?q = "take (length (ffx_q s) - 8) (ffx_q s) @ be_bytes 8 (unat B)"
  from assms have len: "length ?q = length (ffx_q s)" by (simp add: ffx_ready_def)
  with assms have "length ?q mod 16 = 0" by (simp only: ffx_ready_def)
  from cbc_mac_aligned [OF this, of "ffx_aes s" "ffx_inBytes s" "ffx_encryptedP s" 0]
  obtain i' ob' where c: "cbc_mac (ffx_aes s) (ffx_inBytes s) (ffx_encryptedP s) ?q 0
      = Inr (i', ob', 0 + length ?q div 16)" by blast
  from assms have "ffx_lengthBits s div 2 \<le> 64"
    and "ffx_lengthBits s - ffx_lengthBits s div 2 \<le> 64"
    unfolding ffx_ready_def by linarith+
  with assms c have "\<exists>s' f. FFX_RoundFunc s i B = Inr (s', f)"
    by (cases "even i") (simp_all add: FFX_RoundFunc_def Let_def ffx_ready_def)
  then obtain s' f where r: "FFX_RoundFunc s i B = Inr (s', f)" by blast
  then have "ffx_F s i B = f" by (simp add: ffx_F_def)
  with r FFX_RoundFunc_same [OF r] show ?thesis by blast
qed

lemma shift_out_and_back:
  fixes w :: uint64
  assumes "k \<le> 64"
  shows "drop_bit (64 - k) (push_bit (64 - k) w) = take_bit k w"
  using assms by (intro bit_word_eqI) (auto simp: bit_simps)

lemma ffx_F_fits:
  "take_bit (ffx_width (ffx_lengthBits s) i) (ffx_F s i B) = ffx_F s i B"
proof (cases "FFX_RoundFunc s i B")
  case (Inl e)
  then show ?thesis by (simp add: ffx_F_def)
next
  case (Inr r)
  then obtain s' f where r: "FFX_RoundFunc s i B = Inr (s', f)" by (cases r) auto
  then have "\<exists>w. ffx_width (ffx_lengthBits s) i \<le> 64 \<and>
      f = drop_bit (64 - ffx_width (ffx_lengthBits s) i)
            (push_bit (64 - ffx_width (ffx_lengthBits s) i) w)"
    by (auto simp: FFX_RoundFunc_def Let_def ffx_width_def split: if_splits sum.splits)
  then obtain w where "f = take_bit (ffx_width (ffx_lengthBits s) i) w"
    by (auto simp: shift_out_and_back)
  with r show ?thesis by (simp add: ffx_F_def)
qed

lemma ffx_width_alt: "ffx_width l (Suc (Suc i)) = ffx_width l i"
  by (simp add: ffx_width_def)

lemma ffx_round_loop_feistel:
  assumes "ffx_same s t" and "ffx_ready s"
  shows "\<exists>t'. ffx_round_loop k t i a b = Inr (t', feistel k (ffx_F s) i a b) \<and> ffx_same s t'"
  using assms(1)
proof (induction k arbitrary: t i a b)
  case 0
  then show ?case by simp
next
  case (Suc k)
  have "ffx_ready t" using Suc.prems assms(2) by (rule ffx_ready_same)
  from FFX_RoundFunc_total [OF this, of i b]
  obtain t1 where r: "FFX_RoundFunc t i b = Inr (t1, ffx_F t i b)" and st: "ffx_same t t1"
    by blast
  have F: "ffx_F t i b = ffx_F s i b" using Suc.prems by (rule ffx_F_same)
  have "ffx_same s t1" using Suc.prems st by (rule ffx_same_trans)
  from Suc.IH [OF this]
  obtain t' where "ffx_round_loop k t1 (Suc i) b (a XOR ffx_F s i b)
        = Inr (t', feistel k (ffx_F s) (Suc i) b (a XOR ffx_F s i b))"
    and "ffx_same s t'" by blast
  then show ?case using r F by simp
qed


text \<open>
  \<open>RoundFunc\<close> and the round loop write \<open>q\<close>, \<open>inBytes\<close> and \<open>outBytes\<close> and nothing else.
\<close>

definition ffx_frame :: "FFX \<Rightarrow> FFX \<Rightarrow> bool" where
  "ffx_frame s t \<longleftrightarrow>
     t = s\<lparr> ffx_q := ffx_q t, ffx_inBytes := ffx_inBytes t, ffx_outBytes := ffx_outBytes t \<rparr>"

lemma ffx_frame_refl [simp]: "ffx_frame s s"
  by (simp add: ffx_frame_def)

lemma ffx_frame_trans:
  assumes "ffx_frame s t" and "ffx_frame t u"
  shows "ffx_frame s u"
proof -
  from assms(2) have "u = t\<lparr> ffx_q := ffx_q u, ffx_inBytes := ffx_inBytes u,
      ffx_outBytes := ffx_outBytes u \<rparr>" by (simp only: ffx_frame_def)
  also from assms(1) have "t = s\<lparr> ffx_q := ffx_q t, ffx_inBytes := ffx_inBytes t,
      ffx_outBytes := ffx_outBytes t \<rparr>" by (simp only: ffx_frame_def)
  finally show ?thesis by (simp add: ffx_frame_def)
qed

lemma FFX_RoundFunc_frame: "FFX_RoundFunc s i B = Inr (s', f) \<Longrightarrow> ffx_frame s s'"
  unfolding ffx_frame_def
  by (auto simp: FFX_RoundFunc_def Let_def split: if_splits sum.splits)

lemma ffx_round_loop_frame:
  "ffx_round_loop k s i a b = Inr (s', r) \<Longrightarrow> ffx_frame s s'"
proof (induction k arbitrary: s i a b)
  case 0
  then show ?case by auto
next
  case (Suc k)
  then obtain s1 f where r: "FFX_RoundFunc s i b = Inr (s1, f)"
    and l: "ffx_round_loop k s1 (Suc i) b (a XOR f) = Inr (s', r)"
    by (auto split: sum.splits)
  from FFX_RoundFunc_frame [OF r] Suc.IH [OF l] show ?case by (rule ffx_frame_trans)
qed

text \<open>
  The cached \<open>encryptedP\<close> is the encryption of the header for the cached tweak length, unless
  no tweak length has been cached yet.
\<close>

definition ffx_coherent :: "FFX \<Rightarrow> bool" where
  "ffx_coherent s \<longleftrightarrow> ffx_tweakLen s < 0 \<or>
     ffx_encryptedP s = ffx_aes s (put_uint64_lo (ffx_p s) (of_int (ffx_tweakLen s)))"

lemma put_uint64_lo_idem [simp]:
  "put_uint64_lo (put_uint64_lo blk v) w = put_uint64_lo blk w"
  unfolding put_uint64_lo_def
  by (intro bit_word_eqI) (auto simp: bit_simps dest: bit_imp_le_length)

text \<open>The state in which the round loop starts, whatever the cache held.\<close>

definition ffx_prep :: "FFX \<Rightarrow> bytes \<Rightarrow> FFX" where
  "ffx_prep s tw =
     s\<lparr> ffx_encryptedP := ffx_aes s (put_uint64_lo (ffx_p s) (of_int (int (length tw)))),
        ffx_q := build_q tw \<rparr>"

lemma ffx_prep_same:
  assumes "ffx_coherent s"
  shows "ffx_same (ffx_prep s tw)
           ((calculateEncryptedP s sp (int (length tw)))\<lparr> ffx_q := build_q tw \<rparr>)"
proof (cases "int (length tw) = ffx_tweakLen s")
  case True
  then have "\<not> ffx_tweakLen s < 0" by linarith
  with assms have "ffx_encryptedP s
      = ffx_aes s (put_uint64_lo (ffx_p s) (of_int (ffx_tweakLen s)))"
    by (simp add: ffx_coherent_def)
  then have "ffx_encryptedP s
      = ffx_aes s (put_uint64_lo (ffx_p s) (of_int (int (length tw))))"
    by (simp only: True)
  with True show ?thesis
    by (simp add: ffx_same_def ffx_prep_def calculateEncryptedP_def)
next
  case False
  then show ?thesis
    by (simp add: ffx_same_def ffx_prep_def calculateEncryptedP_def Let_def)
qed

lemma calculateEncryptedP_coherent:
  "ffx_coherent s \<Longrightarrow> ffx_coherent (calculateEncryptedP s sp tlen)"
  by (auto simp: ffx_coherent_def calculateEncryptedP_def Let_def)

lemma ffx_prep_ready: "ffx_lengthBits s \<le> 128 \<Longrightarrow> ffx_ready (ffx_prep s tw)"
  by (simp add: ffx_ready_def ffx_prep_def build_q_ge_16 build_q_aligned)

text \<open>The fields the constructor sets and no method changes, up to the cached tweak length.\<close>

definition ffx_static :: "FFX \<Rightarrow> FFX \<Rightarrow> bool" where
  "ffx_static s t \<longleftrightarrow> ffx_lengthBits t = ffx_lengthBits s \<and> ffx_rounds t = ffx_rounds s \<and>
     ffx_mask t = ffx_mask s \<and> ffx_aes t = ffx_aes s \<and>
     drop_bit 64 (ffx_p t) = drop_bit 64 (ffx_p s)"

lemma ffx_static_refl [simp]: "ffx_static s s"
  by (simp add: ffx_static_def)

lemma ffx_static_trans: "ffx_static s t \<Longrightarrow> ffx_static t u \<Longrightarrow> ffx_static s u"
  by (simp add: ffx_static_def)

lemma ffx_static_sym: "ffx_static s t \<Longrightarrow> ffx_static t s"
  by (simp add: ffx_static_def)

lemma drop_bit_put_uint64_lo [simp]: "drop_bit 64 (put_uint64_lo blk v) = drop_bit 64 blk"
  unfolding put_uint64_lo_def
  by (intro bit_word_eqI) (auto simp: bit_simps dest: bit_imp_le_length)

lemma put_uint64_lo_cong:
  "drop_bit 64 blk = drop_bit 64 blk' \<Longrightarrow> put_uint64_lo blk v = put_uint64_lo blk' v"
  by (simp add: put_uint64_lo_def)

text \<open>The permutation the engine computes, as a function of the input value alone.\<close>

definition ffx_perm :: "FFX \<Rightarrow> bytes \<Rightarrow> int \<Rightarrow> int" where
  "ffx_perm s tw x =
    (let split = ffx_lengthBits s div 2;
         (a, b) = feistel (ffx_rounds s) (ffx_F (ffx_prep s tw)) 0
                    (Uint64 (drop_bit (ffx_lengthBits s - split) x))
                    (Uint64 (x AND ffx_mask s))
     in push_bit (ffx_lengthBits s - split) (uint a) OR uint b)"

lemma ffx_perm_static:
  assumes "ffx_static s t"
  shows "ffx_perm t tw x = ffx_perm s tw x"
proof -
  have "put_uint64_lo (ffx_p t) (of_int (int (length tw)))
      = put_uint64_lo (ffx_p s) (of_int (int (length tw)))"
    using assms by (intro put_uint64_lo_cong) (simp add: ffx_static_def)
  then have "ffx_same (ffx_prep s tw) (ffx_prep t tw)"
    using assms by (simp add: ffx_same_def ffx_prep_def ffx_static_def)
  then have "ffx_F (ffx_prep t tw) = ffx_F (ffx_prep s tw)"
    by (intro ext) (rule ffx_F_same)
  with assms show ?thesis by (simp add: ffx_perm_def ffx_static_def)
qed

lemma FFX_PermuteInPlace_feistel:
  assumes co: "ffx_coherent s" and L: "ffx_lengthBits s \<le> 128"
  shows "\<exists>s'. FFX_PermuteInPlace s x tw = Inr (s', ffx_perm s tw x) \<and>
           ffx_static s s' \<and> ffx_coherent s'"
proof -
  let ?L = "ffx_lengthBits s"
  let ?sp = "?L div 2"
  let ?s1 = "calculateEncryptedP s ?sp (int (length tw))"
  let ?s2 = "?s1\<lparr> ffx_q := build_q tw \<rparr>"
  let ?a = "Uint64 (drop_bit (?L - ?sp) x)"
  let ?b = "Uint64 (x AND ffx_mask s)"
  have same: "ffx_same (ffx_prep s tw) ?s2" using co by (rule ffx_prep_same)
  have ready: "ffx_ready (ffx_prep s tw)" using L by (rule ffx_prep_ready)
  have r2: "ffx_rounds ?s2 = ffx_rounds s" by (simp add: calculateEncryptedP_def Let_def)
  from ffx_round_loop_feistel [OF same ready, of "ffx_rounds s" 0 ?a ?b]
  obtain s3 where loop: "ffx_round_loop (ffx_rounds s) ?s2 0 ?a ?b
        = Inr (s3, feistel (ffx_rounds s) (ffx_F (ffx_prep s tw)) 0 ?a ?b)"
    by blast
  then have "ffx_frame ?s2 s3" by (rule ffx_round_loop_frame)
  then obtain qb ib ob where
    s3: "s3 = ?s2\<lparr> ffx_q := qb, ffx_inBytes := ib, ffx_outBytes := ob \<rparr>"
    unfolding ffx_frame_def by blast
  have "ffx_coherent ?s1" using co by (rule calculateEncryptedP_coherent)
  then have co3: "ffx_coherent s3" by (simp add: s3 ffx_coherent_def)
  have st3: "ffx_static s s3"
    by (simp add: s3 ffx_static_def calculateEncryptedP_def Let_def)
  have "FFX_PermuteInPlace s x tw = Inr (s3, ffx_perm s tw x)"
    unfolding FFX_PermuteInPlace_def ffx_perm_def Let_def r2
    by (simp add: loop split: prod.splits)
  with co3 st3 show ?thesis by blast
qed


text \<open>What the constructor establishes and every method keeps.\<close>

definition ffx_wf :: "FFX \<Rightarrow> bool" where
  "ffx_wf s \<longleftrightarrow> ffx_lengthBits s \<le> 128 \<and> even (ffx_rounds s) \<and>
     ffx_mask s = push_bit (ffx_lengthBits s - ffx_lengthBits s div 2) 1 - 1"

lemma ffx_wf_static: "ffx_static s t \<Longrightarrow> ffx_wf s \<Longrightarrow> ffx_wf t"
  by (simp add: ffx_static_def ffx_wf_def)

lemma Uint64_nonneg: "take_bit n z = z \<Longrightarrow> Uint64 z = of_int z"
  by (simp add: Uint64_def take_bit_int_eq_self_iff)

lemma uint_Uint64:
  assumes "take_bit n z = z" and "n \<le> 64"
  shows "uint (Uint64 z) = z"
proof -
  have "take_bit 64 (take_bit n z) = take_bit n z" using assms(2) by (simp add: min_def)
  then have "take_bit 64 z = z" by (simp only: assms(1))
  then show ?thesis by (simp add: Uint64_nonneg [OF assms(1)] uint_word_of_int_eq)
qed

lemma Uint64_fits:
  assumes "take_bit n z = z"
  shows "take_bit n (Uint64 z) = Uint64 z"
proof -
  have "take_bit n (of_int z :: uint64) = of_int (take_bit n z)" by (rule take_bit_of_int)
  then show ?thesis by (simp add: Uint64_nonneg [OF assms] assms)
qed

lemma uint_fits:
  fixes w :: uint64
  assumes "take_bit n w = w"
  shows "take_bit n (uint w) = uint w"
proof -
  have "take_bit n (uint w) = uint (take_bit n w)" by (simp add: unsigned_take_bit_eq)
  then show ?thesis by (simp only: assms)
qed

lemma ffx_halves:
  assumes wf: "ffx_wf s" and x: "take_bit (ffx_lengthBits s) x = x"
  defines "sp \<equiv> ffx_lengthBits s div 2"
  shows "x AND ffx_mask s = take_bit (ffx_lengthBits s - sp) x"
    and "take_bit sp (drop_bit (ffx_lengthBits s - sp) x) = drop_bit (ffx_lengthBits s - sp) x"
    and "take_bit (ffx_width (ffx_lengthBits s) 0)
           (Uint64 (drop_bit (ffx_lengthBits s - sp) x))
         = Uint64 (drop_bit (ffx_lengthBits s - sp) x)"
    and "take_bit (ffx_width (ffx_lengthBits s) (Suc 0)) (Uint64 (x AND ffx_mask s))
         = Uint64 (x AND ffx_mask s)"
    and "uint (Uint64 (drop_bit (ffx_lengthBits s - sp) x)) = drop_bit (ffx_lengthBits s - sp) x"
    and "uint (Uint64 (x AND ffx_mask s)) = take_bit (ffx_lengthBits s - sp) x"
proof -
  let ?L = "ffx_lengthBits s"
  from wf have L: "?L \<le> 128" and m: "ffx_mask s = push_bit (?L - sp) 1 - 1"
    by (simp_all add: ffx_wf_def sp_def)
  have sum: "sp + (?L - sp) = ?L" by (simp add: sp_def)
  have sp64: "sp \<le> 64" and c64: "?L - sp \<le> 64" using L unfolding sp_def by linarith+
  show b: "x AND ffx_mask s = take_bit (?L - sp) x" by (simp only: m and_low_mask)
  show a: "take_bit sp (drop_bit (?L - sp) x) = drop_bit (?L - sp) x"
    using x by (intro split_fits) (simp only: sum)
  show "take_bit (ffx_width ?L 0) (Uint64 (drop_bit (?L - sp) x)) = Uint64 (drop_bit (?L - sp) x)"
    using a by (simp add: ffx_width_def sp_def Uint64_fits)
  have bf: "take_bit (?L - sp) (take_bit (?L - sp) x) = take_bit (?L - sp) x" by simp
  show "take_bit (ffx_width ?L (Suc 0)) (Uint64 (x AND ffx_mask s)) = Uint64 (x AND ffx_mask s)"
    unfolding b using bf by (simp add: ffx_width_def sp_def Uint64_fits)
  show "uint (Uint64 (drop_bit (?L - sp) x)) = drop_bit (?L - sp) x"
    using a sp64 by (rule uint_Uint64)
  show "uint (Uint64 (x AND ffx_mask s)) = take_bit (?L - sp) x"
    unfolding b using bf c64 by (rule uint_Uint64)
qed

lemma ffx_feistel_widths:
  assumes wf: "ffx_wf s" and x: "take_bit (ffx_lengthBits s) x = x"
    and f: "feistel (ffx_rounds s) (ffx_F t) 0
              (Uint64 (drop_bit (ffx_lengthBits s - ffx_lengthBits s div 2) x))
              (Uint64 (x AND ffx_mask s)) = (a', b')"
    and t: "ffx_lengthBits t = ffx_lengthBits s"
  shows "take_bit (ffx_lengthBits s div 2) (uint a') = uint a'"
    and "take_bit (ffx_lengthBits s - ffx_lengthBits s div 2) (uint b') = uint b'"
proof -
  let ?L = "ffx_lengthBits s"
  let ?w = "ffx_width ?L"
  have alt: "\<And>i. ?w (Suc (Suc i)) = ?w i" by (rule ffx_width_alt)
  have fits: "\<And>i b. take_bit (?w i) (ffx_F t i b) = ffx_F t i b"
    using ffx_F_fits [of t] by (simp add: t)
  from wf have ev: "even (ffx_rounds s)" by (simp add: ffx_wf_def)
  have "take_bit (?w (0 + ffx_rounds s)) a' = a' \<and> take_bit (?w (Suc (0 + ffx_rounds s))) b' = b'"
    by (rule feistel_widths [where F = "ffx_F t" and w = ?w,
          OF fits alt ffx_halves(3) [OF wf x] ffx_halves(4) [OF wf x] f])
  moreover have "?w (ffx_rounds s) = ?w 0" "?w (Suc (ffx_rounds s)) = ?w (Suc 0)"
    using alt_even [where w = ?w, OF alt ev] by simp_all
  ultimately have "take_bit (?L div 2) a' = a'" and "take_bit (?L - ?L div 2) b' = b'"
    by (simp_all add: ffx_width_def)
  then show "take_bit (?L div 2) (uint a') = uint a'"
    and "take_bit (?L - ?L div 2) (uint b') = uint b'"
    by (simp_all only: uint_fits)
qed

lemma ffx_perm_in_range:
  assumes wf: "ffx_wf s" and x: "take_bit (ffx_lengthBits s) x = x"
  shows "take_bit (ffx_lengthBits s) (ffx_perm s tw x) = ffx_perm s tw x"
proof -
  let ?L = "ffx_lengthBits s"
  let ?f = "feistel (ffx_rounds s) (ffx_F (ffx_prep s tw)) 0
              (Uint64 (drop_bit (?L - ?L div 2) x)) (Uint64 (x AND ffx_mask s))"
  obtain a' b' where f: "?f = (a', b')" by (cases ?f)
  have t: "ffx_lengthBits (ffx_prep s tw) = ?L" by (simp add: ffx_prep_def)
  note w = ffx_feistel_widths [OF wf x f t]
  have "take_bit (?L div 2 + (?L - ?L div 2)) (push_bit (?L - ?L div 2) (uint a') OR uint b')
      = push_bit (?L - ?L div 2) (uint a') OR uint b'"
    using w(2) w(1) by (rule join_fits)
  then show ?thesis by (simp add: ffx_perm_def f)
qed

lemma ffx_perm_inj:
  assumes wf: "ffx_wf s"
    and x: "take_bit (ffx_lengthBits s) x = x" and y: "take_bit (ffx_lengthBits s) y = y"
    and eq: "ffx_perm s tw x = ffx_perm s tw y"
  shows "x = y"
proof -
  let ?L = "ffx_lengthBits s"
  let ?c = "?L - ?L div 2"
  let ?F = "ffx_F (ffx_prep s tw)"
  let ?fx = "feistel (ffx_rounds s) ?F 0 (Uint64 (drop_bit ?c x)) (Uint64 (x AND ffx_mask s))"
  let ?fy = "feistel (ffx_rounds s) ?F 0 (Uint64 (drop_bit ?c y)) (Uint64 (y AND ffx_mask s))"
  obtain ax bx where fx: "?fx = (ax, bx)" by (cases ?fx)
  obtain ay by' where fy: "?fy = (ay, by')" by (cases ?fy)
  have t: "ffx_lengthBits (ffx_prep s tw) = ?L" by (simp add: ffx_prep_def)
  note wx = ffx_feistel_widths [OF wf x fx t]
  note wy = ffx_feistel_widths [OF wf y fy t]
  from eq have j: "push_bit ?c (uint ax) OR uint bx = push_bit ?c (uint ay) OR uint by'"
    by (simp add: ffx_perm_def fx fy)
  have "uint ax = drop_bit ?c (push_bit ?c (uint ax) OR uint bx)"
    using wx(2) by (simp only: join_drop)
  also have "\<dots> = uint ay" unfolding j using wy(2) by (rule join_drop)
  finally have a_eq: "ax = ay" by (simp only: word_uint_eq_iff)
  have "uint bx = take_bit ?c (push_bit ?c (uint ax) OR uint bx)"
    using wx(2) by (simp only: join_take)
  also have "\<dots> = uint by'" unfolding j using wy(2) by (rule join_take)
  finally have b_eq: "bx = by'" by (simp only: word_uint_eq_iff)
  from a_eq b_eq fx fy have "?fx = ?fy" by simp
  then have "Uint64 (drop_bit ?c x) = Uint64 (drop_bit ?c y)
      \<and> Uint64 (x AND ffx_mask s) = Uint64 (y AND ffx_mask s)"
    by (rule feistel_inj)
  then have "uint (Uint64 (drop_bit ?c x)) = uint (Uint64 (drop_bit ?c y))"
    and "uint (Uint64 (x AND ffx_mask s)) = uint (Uint64 (y AND ffx_mask s))"
    by simp_all
  then have "drop_bit ?c x = drop_bit ?c y" and "take_bit ?c x = take_bit ?c y"
    by (simp_all only: ffx_halves(5,6) [OF wf x] ffx_halves(5,6) [OF wf y])
  then have "push_bit ?c (drop_bit ?c x) OR take_bit ?c x
      = push_bit ?c (drop_bit ?c y) OR take_bit ?c y" by simp
  then show ?thesis by (simp only: split_join)
qed

section \<open>Engine objects and their states\<close>

text \<open>The value a call returns, \<open>None\<close> where it panics.\<close>

definition permuted :: "error + ('s \<times> 'v) \<Rightarrow> 'v option" where
  "permuted r = (case r of Inl e \<Rightarrow> None | Inr (s, y) \<Rightarrow> Some y)"

lemma permuted_Inr [simp]: "permuted (Inr (s, y)) = Some y"
  by (simp add: permuted_def)

lemma permuted_Inl [simp]: "permuted (Inl e) = None"
  by (simp add: permuted_def)

text \<open>
  The states an engine object built by the constructor can be in: the exported methods
  are the only way to change it.
\<close>

inductive ffx_reachable :: "prims \<Rightarrow> bytes \<Rightarrow> int \<Rightarrow> FFX \<Rightarrow> bool" for pr key l where
  ffx_new: "NewFFX pr key l = Inr s \<Longrightarrow> ffx_reachable pr key l s"
| ffx_permute: "ffx_reachable pr key l s \<Longrightarrow> FFX_PermuteInPlace s x tw = Inr (s', y)
    \<Longrightarrow> ffx_reachable pr key l s'"
| ffx_round: "ffx_reachable pr key l s \<Longrightarrow> FFX_RoundFunc s i B = Inr (s', f)
    \<Longrightarrow> ffx_reachable pr key l s'"

inductive fs_reachable :: "prims \<Rightarrow> bytes \<Rightarrow> int \<Rightarrow> FeistelSHAKE128 \<Rightarrow> bool"
  for pr key l where
  fs_new: "NewPowerOf2 pr key l = Inr s \<Longrightarrow> fs_reachable pr key l s"
| fs_permute: "fs_reachable pr key l s \<Longrightarrow> FS_PermuteInPlace s x tw = Inr (s', y)
    \<Longrightarrow> fs_reachable pr key l s'"
| fs_round: "fs_reachable pr key l s \<Longrightarrow> FS_RoundFunc s i b tw = Inr (s', f)
    \<Longrightarrow> fs_reachable pr key l s'"

lemma NewFFX_Inr:
  assumes "NewFFX pr key l = Inr s"
  shows "8 \<le> l" and "l \<le> 128" and "ffx_lengthBits s = nat l" and "ffx_wf s"
    and "ffx_coherent s"
proof -
  from assms show l: "8 \<le> l" "l \<le> 128" by (auto simp: NewFFX_def split: if_splits)
  with assms have s: "ffx_lengthBits s = nat l" "even (ffx_rounds s)" "ffx_tweakLen s = - 1"
    "ffx_mask s = push_bit (nat (l - l div 2)) 1 - 1"
    by (auto simp: NewFFX_def Let_def)
  show "ffx_lengthBits s = nat l" by (rule s)
  have "nat (l - l div 2) = nat l - nat l div 2" using l by (simp add: nat_diff_distrib nat_div_distrib)
  moreover from l have "nat l \<le> 128" by linarith
  ultimately show "ffx_wf s" using s by (simp add: ffx_wf_def)
  from s show "ffx_coherent s" by (simp add: ffx_coherent_def)
qed

lemma NewPowerOf2_Inr:
  assumes "NewPowerOf2 pr key l = Inr s"
  shows "2 \<le> l" and "fs_lengthBits s = nat l" and "even (fs_rounds s)"
  using assms by (auto simp: NewPowerOf2_def Let_def split: if_splits)

lemma ffx_frame_static: "ffx_frame s t \<Longrightarrow> ffx_static s t"
proof -
  assume "ffx_frame s t"
  then have "t = s\<lparr> ffx_q := ffx_q t, ffx_inBytes := ffx_inBytes t, ffx_outBytes := ffx_outBytes t \<rparr>"
    by (simp only: ffx_frame_def)
  then have "ffx_static s t = ffx_static s (s\<lparr> ffx_q := ffx_q t, ffx_inBytes := ffx_inBytes t,
      ffx_outBytes := ffx_outBytes t \<rparr>)" by simp
  then show ?thesis by (simp add: ffx_static_def)
qed

lemma ffx_frame_coherent: "ffx_frame s t \<Longrightarrow> ffx_coherent s \<Longrightarrow> ffx_coherent t"
proof -
  assume f: "ffx_frame s t" and c: "ffx_coherent s"
  from f have "t = s\<lparr> ffx_q := ffx_q t, ffx_inBytes := ffx_inBytes t, ffx_outBytes := ffx_outBytes t \<rparr>"
    by (simp only: ffx_frame_def)
  then have "ffx_coherent t = ffx_coherent (s\<lparr> ffx_q := ffx_q t, ffx_inBytes := ffx_inBytes t,
      ffx_outBytes := ffx_outBytes t \<rparr>)" by simp
  with c show ?thesis by (simp add: ffx_coherent_def)
qed

lemma ffx_reachable_inv:
  assumes "ffx_reachable pr key l t" and "NewFFX pr key l = Inr s0"
  shows "ffx_static s0 t \<and> ffx_coherent t \<and> ffx_wf t"
  using assms
proof (induction rule: ffx_reachable.induct)
  case (ffx_new s)
  then have "s = s0" by simp
  with NewFFX_Inr [OF ffx_new(1)] show ?case by simp
next
  case (ffx_permute s x tw s' y)
  then have inv: "ffx_static s0 s" "ffx_coherent s" "ffx_wf s" by simp_all
  then have "ffx_lengthBits s \<le> 128" by (simp add: ffx_wf_def)
  from FFX_PermuteInPlace_feistel [OF inv(2) this, of x tw] ffx_permute(2)
  have "ffx_static s s'" and co: "ffx_coherent s'" by auto
  with inv(1) have st: "ffx_static s0 s'" by (blast intro: ffx_static_trans)
  from \<open>ffx_static s s'\<close> inv(3) have "ffx_wf s'" by (rule ffx_wf_static)
  with st co show ?case by simp
next
  case (ffx_round s i B s' f)
  then have inv: "ffx_static s0 s" "ffx_coherent s" "ffx_wf s" by simp_all
  from ffx_round(2) have fr: "ffx_frame s s'" by (rule FFX_RoundFunc_frame)
  then have ss: "ffx_static s s'" by (rule ffx_frame_static)
  with inv(1) have "ffx_static s0 s'" by (blast intro: ffx_static_trans)
  moreover from fr inv(2) have "ffx_coherent s'" by (rule ffx_frame_coherent)
  moreover from ss inv(3) have "ffx_wf s'" by (rule ffx_wf_static)
  ultimately show ?case by simp
qed

lemma ffx_reachable_new: "ffx_reachable pr key l t \<Longrightarrow> \<exists>s0. NewFFX pr key l = Inr s0"
  by (induction rule: ffx_reachable.induct) auto

lemma fs_reachable_new: "fs_reachable pr key l t \<Longrightarrow> \<exists>s0. NewPowerOf2 pr key l = Inr s0"
  by (induction rule: fs_reachable.induct) auto

lemma FS_PermuteInPlace_same: "FS_PermuteInPlace s x tw = Inr (s', y) \<Longrightarrow> fs_same s s'"
proof -
  have loop: "fs_round_loop k t tw i a b = Inr (t', r) \<Longrightarrow> fs_same t t'" for k t i a b t' r
  proof (induction k arbitrary: t i a b)
    case 0
    then show ?case by auto
  next
    case (Suc k)
    then obtain t1 f where r: "FS_RoundFunc t i b tw = Inr (t1, f)"
      and l: "fs_round_loop k t1 tw (Suc i) b (a XOR f) = Inr (t', r)"
      by (auto split: sum.splits)
    from FS_RoundFunc_same [OF r] Suc.IH [OF l] show ?case by (rule fs_same_trans)
  qed
  assume "FS_PermuteInPlace s x tw = Inr (s', y)"
  then show ?thesis
    by (auto simp: FS_PermuteInPlace_def Let_def split: sum.splits dest: loop)
qed

lemma fs_reachable_inv:
  assumes "fs_reachable pr key l t" and "NewPowerOf2 pr key l = Inr s0"
  shows "fs_same s0 t"
  using assms
proof (induction rule: fs_reachable.induct)
  case (fs_new s)
  then show ?case by simp
next
  case (fs_permute s x tw s' y)
  then have "fs_same s0 s" by simp
  moreover from fs_permute(2) have "fs_same s s'" by (rule FS_PermuteInPlace_same)
  ultimately show ?case by (rule fs_same_trans)
next
  case (fs_round s i b tw s' f)
  then have "fs_same s0 s" by simp
  moreover from fs_round(2) have "fs_same s s'" by (rule FS_RoundFunc_same)
  ultimately show ?case by (rule fs_same_trans)
qed


section \<open>Both engines permute \<open>[0, 2 ^ lengthBits)\<close>\<close>

lemma domain_fits: "{0..<2 ^ n} = {x::int. take_bit n x = x}"
  by (auto simp: take_bit_int_eq_self_iff)

lemma permutation_of_domain:
  fixes g :: "int \<Rightarrow> int option" and f :: "int \<Rightarrow> int"
  assumes val: "\<And>x. take_bit n x = x \<Longrightarrow> g x = Some (f x)"
    and range: "\<And>x. take_bit n x = x \<Longrightarrow> take_bit n (f x) = f x"
    and inj: "\<And>x y. take_bit n x = x \<Longrightarrow> take_bit n y = y \<Longrightarrow> f x = f y \<Longrightarrow> x = y"
  shows "inj_on g {0..<2 ^ n}" and "g ` {0..<2 ^ n} = Some ` {0..<2 ^ n}"
    and "bij_betw f {0..<2 ^ n} {0..<2 ^ n}"
proof -
  let ?D = "{0..<2 ^ n} :: int set"
  have D: "x \<in> ?D \<longleftrightarrow> take_bit n x = x" for x by (simp add: domain_fits)
  have f_inj: "inj_on f ?D"
  proof (rule inj_onI)
    fix x y assume "x \<in> ?D" and "y \<in> ?D" and "f x = f y"
    then show "x = y" using inj [of x y] by (simp only: D)
  qed
  have "f ` ?D \<subseteq> ?D" using range by (auto simp: D simp del: atLeastLessThan_iff)
  with f_inj have f_img: "f ` ?D = ?D" by (intro endo_inj_surj) simp_all
  with f_inj show "bij_betw f ?D ?D" by (simp add: bij_betw_def)
  have g: "g x = Some (f x)" if "x \<in> ?D" for x using that val by (simp only: D)
  show "inj_on g ?D"
  proof (rule inj_onI)
    fix x y assume x: "x \<in> ?D" and y: "y \<in> ?D" and "g x = g y"
    then have fe: "f x = f y" by (simp add: g)
    from inj_onD [OF f_inj fe x y] show "x = y" .
  qed
  have "g ` ?D = (\<lambda>x. Some (f x)) ` ?D" by (rule image_cong) (simp_all add: g)
  also have "\<dots> = Some ` f ` ?D" by (simp add: image_image)
  finally show "g ` ?D = Some ` ?D" by (simp only: f_img)
qed

lemma ffx_reachable_permutes:
  assumes "ffx_reachable pr key l s"
  shows "ffx_lengthBits s = nat l" and "ffx_wf s"
    and "\<exists>s'. FFX_PermuteInPlace s x tw = Inr (s', ffx_perm s tw x)"
proof -
  from assms obtain s0 where s0: "NewFFX pr key l = Inr s0"
    by (auto dest: ffx_reachable_new)
  from ffx_reachable_inv [OF assms s0]
  have st: "ffx_static s0 s" and co: "ffx_coherent s" and wf: "ffx_wf s" by simp_all
  from st NewFFX_Inr(3) [OF s0] show "ffx_lengthBits s = nat l" by (simp add: ffx_static_def)
  show "ffx_wf s" by (rule wf)
  from wf have "ffx_lengthBits s \<le> 128" by (simp add: ffx_wf_def)
  from FFX_PermuteInPlace_feistel [OF co this, of x tw]
  show "\<exists>s'. FFX_PermuteInPlace s x tw = Inr (s', ffx_perm s tw x)" by blast
qed

lemma fs_reachable_permutes:
  assumes "fs_reachable pr key l s"
  shows "fs_lengthBits s = nat l" and "even (fs_rounds s)"
    and "take_bit (nat l) x = x \<Longrightarrow> \<exists>s'. FS_PermuteInPlace s x tw = Inr (s', fs_perm s tw x)"
proof -
  from assms obtain s0 where s0: "NewPowerOf2 pr key l = Inr s0"
    by (auto dest: fs_reachable_new)
  from fs_reachable_inv [OF assms s0] have same: "fs_same s0 s" .
  with NewPowerOf2_Inr [OF s0] show L: "fs_lengthBits s = nat l" and "even (fs_rounds s)"
    by (simp_all add: fs_same_def)
  assume "take_bit (nat l) x = x"
  then have "take_bit (fs_lengthBits s) x = x" by (simp only: L)
  from FS_PermuteInPlace_feistel [OF this, of tw]
  show "\<exists>s'. FS_PermuteInPlace s x tw = Inr (s', fs_perm s tw x)" by blast
qed

text \<open>
  C2. For every key, every primitive, every supported \<open>lengthBits\<close> and every tweak, the
  fixed-domain permute operation of an engine object, in whatever state earlier calls left it,
  is a bijection on \<open>[0, 2 ^ lengthBits)\<close>: on that interval it never panics, no two inputs
  give the same output, and the outputs are exactly the interval.  The AES-class constructor
  accepts \<open>lengthBits\<close> in \<open>[8, 128]\<close> and the XOF-class one every \<open>lengthBits \<ge> 2\<close>.  Nothing
  is assumed about the block cipher or the XOF.
\<close>

theorem fixed_domain_permute_is_bijection:
  "(8 \<le> l \<and> l \<le> 128 \<longrightarrow> (\<exists>s. NewFFX pr key l = Inr s)) \<and>
   (ffx_reachable pr key l s \<longrightarrow>
      inj_on (\<lambda>x. permuted (FFX_PermuteInPlace s x tw)) {0..<2 ^ nat l} \<and>
      (\<lambda>x. permuted (FFX_PermuteInPlace s x tw)) ` {0..<2 ^ nat l} = Some ` {0..<2 ^ nat l}) \<and>
   (2 \<le> l \<longrightarrow> (\<exists>t. NewPowerOf2 pr key l = Inr t)) \<and>
   (fs_reachable pr key l t \<longrightarrow>
      inj_on (\<lambda>x. permuted (FS_PermuteInPlace t x tw)) {0..<2 ^ nat l} \<and>
      (\<lambda>x. permuted (FS_PermuteInPlace t x tw)) ` {0..<2 ^ nat l} = Some ` {0..<2 ^ nat l})"
proof (intro conjI impI)
  assume "8 \<le> l \<and> l \<le> 128"
  then show "\<exists>s. NewFFX pr key l = Inr s" using NewFFX_ok [of l pr key] by blast
next
  assume "2 \<le> l"
  then show "\<exists>t. NewPowerOf2 pr key l = Inr t" using NewPowerOf2_ok [of l pr key] by blast
next
  assume r: "ffx_reachable pr key l s"
  note p = ffx_reachable_permutes [OF r]
  have val: "permuted (FFX_PermuteInPlace s x tw) = Some (ffx_perm s tw x)"
    if "take_bit (nat l) x = x" for x
    using p(3) [of x tw] by auto
  have range: "take_bit (nat l) (ffx_perm s tw x) = ffx_perm s tw x"
    if "take_bit (nat l) x = x" for x
    using ffx_perm_in_range [OF p(2), of x tw] that by (simp add: p(1))
  have inj: "x = y" if "take_bit (nat l) x = x" "take_bit (nat l) y = y"
    "ffx_perm s tw x = ffx_perm s tw y" for x y
    using ffx_perm_inj [OF p(2), of x y tw] that by (simp add: p(1))
  show "inj_on (\<lambda>x. permuted (FFX_PermuteInPlace s x tw)) {0..<2 ^ nat l}"
    using val range inj by (rule permutation_of_domain(1) [where f = "ffx_perm s tw"])
  show "(\<lambda>x. permuted (FFX_PermuteInPlace s x tw)) ` {0..<2 ^ nat l} = Some ` {0..<2 ^ nat l}"
    using val range inj by (rule permutation_of_domain(2) [where f = "ffx_perm s tw"])
next
  assume r: "fs_reachable pr key l t"
  note p = fs_reachable_permutes [OF r]
  have val: "permuted (FS_PermuteInPlace t x tw) = Some (fs_perm t tw x)"
    if "take_bit (nat l) x = x" for x
    using p(3) [OF that, of tw] by auto
  have range: "take_bit (nat l) (fs_perm t tw x) = fs_perm t tw x"
    if "take_bit (nat l) x = x" for x
    using fs_perm_in_range [OF _ p(2), of x tw] that by (simp add: p(1))
  have inj: "x = y" if "take_bit (nat l) x = x" "take_bit (nat l) y = y"
    "fs_perm t tw x = fs_perm t tw y" for x y
    using fs_perm_inj [OF _ _ p(2), of x y tw] that by (simp add: p(1))
  show "inj_on (\<lambda>x. permuted (FS_PermuteInPlace t x tw)) {0..<2 ^ nat l}"
    using val range inj by (rule permutation_of_domain(1) [where f = "fs_perm t tw"])
  show "(\<lambda>x. permuted (FS_PermuteInPlace t x tw)) ` {0..<2 ^ nat l} = Some ` {0..<2 ^ nat l}"
    using val range inj by (rule permutation_of_domain(2) [where f = "fs_perm t tw"])
qed


theorem fixed_domain_permute_is_bijection_witness:
  "\<exists>s t. NewFFX toy_prims [1] 8 = Inr s \<and> NewPowerOf2 toy_prims [1] 8 = Inr t \<and>
     inj_on (\<lambda>x. permuted (FFX_PermuteInPlace s x [7])) {0..<2 ^ nat 8} \<and>
     (\<lambda>x. permuted (FFX_PermuteInPlace s x [7])) ` {0..<2 ^ nat 8} = Some ` {0..<2 ^ nat 8} \<and>
     inj_on (\<lambda>x. permuted (FS_PermuteInPlace t x [7])) {0..<2 ^ nat 8} \<and>
     (\<lambda>x. permuted (FS_PermuteInPlace t x [7])) ` {0..<2 ^ nat 8} = Some ` {0..<2 ^ nat 8}"
proof -
  have l: "(8::int) \<le> 8 \<and> (8::int) \<le> 128" and l2: "(2::int) \<le> 8" by simp_all
  note th = fixed_domain_permute_is_bijection [of 8 toy_prims "[1]" _ "[7]"]
  from th [THEN conjunct1, THEN mp, OF l]
  obtain s where s: "NewFFX toy_prims [1] 8 = Inr s" by (rule exE)
  from th [THEN conjunct2, THEN conjunct2, THEN conjunct1, THEN mp, OF l2]
  obtain t where t: "NewPowerOf2 toy_prims [1] 8 = Inr t" by (rule exE)
  have rs: "ffx_reachable toy_prims [1] 8 s" using s by (rule ffx_new)
  have rt: "fs_reachable toy_prims [1] 8 t" using t by (rule fs_new)
  note X = th [of s t, THEN conjunct2, THEN conjunct1, THEN mp, OF rs]
  note Y = th [of s t, THEN conjunct2, THEN conjunct2, THEN conjunct2, THEN mp, OF rt]
  show ?thesis
    by (rule exI [of _ s], rule exI [of _ t])
       (intro conjI s t X [THEN conjunct1] X [THEN conjunct2] Y [THEN conjunct1]
          Y [THEN conjunct2])
qed

section \<open>Cycle walking\<close>

lemma funpow_closed:
  assumes "f ` D \<subseteq> D" and "x \<in> D"
  shows "(f ^^ j) x \<in> D"
  using assms by (induction j) auto

lemma funpow_inj_on:
  assumes inj: "inj_on f D" and closed: "f ` D \<subseteq> D"
  shows "inj_on (f ^^ i) D"
proof (induction i)
  case 0
  then show ?case by simp
next
  case (Suc i)
  show ?case
  proof (rule inj_onI)
    fix y z assume y: "y \<in> D" and z: "z \<in> D" and eq: "(f ^^ Suc i) y = (f ^^ Suc i) z"
    have yD: "(f ^^ i) y \<in> D" and zD: "(f ^^ i) z \<in> D"
      by (simp_all add: funpow_closed [OF closed] y z)
    from eq have "f ((f ^^ i) y) = f ((f ^^ i) z)" by simp
    from inj_onD [OF inj this yD zD] have "(f ^^ i) y = (f ^^ i) z" .
    from inj_onD [OF Suc this y z] show "y = z" .
  qed
qed

text \<open>Iterating an injective map of a finite set into itself returns to the starting point.\<close>

lemma orbit_returns:
  assumes fin: "finite D" and inj: "inj_on f D" and closed: "f ` D \<subseteq> D" and x: "x \<in> D"
  shows "\<exists>m. 0 < m \<and> m \<le> card D \<and> (f ^^ m) x = x"
proof -
  let ?g = "\<lambda>j. (f ^^ j) x"
  have "?g ` {0..card D} \<subseteq> D" using funpow_closed [OF closed x] by auto
  then have "card (?g ` {0..card D}) \<le> card D" using fin by (rule card_mono [rotated])
  then have "card (?g ` {0..card D}) < card {0..card D}" by simp
  then have "\<not> inj_on ?g {0..card D}" by (rule pigeonhole)
  then obtain i j where ij: "i \<le> card D" "j \<le> card D" "i \<noteq> j" "?g i = ?g j"
    by (auto simp: inj_on_def)
  have main: "\<exists>m. 0 < m \<and> m \<le> card D \<and> (f ^^ m) x = x"
    if "i < j" "j \<le> card D" "(f ^^ i) x = (f ^^ j) x" for i j
  proof -
    from that(1) have "(f ^^ j) x = (f ^^ i) ((f ^^ (j - i)) x)"
      by (simp flip: funpow_add [THEN fun_cong, unfolded o_apply])
    with that(3) have e: "(f ^^ i) x = (f ^^ i) ((f ^^ (j - i)) x)" by simp
    have d: "(f ^^ (j - i)) x \<in> D" using closed x by (rule funpow_closed)
    from inj_onD [OF funpow_inj_on [OF inj closed, of i] e x d]
    have "x = (f ^^ (j - i)) x" .
    with that(1,2) show ?thesis by (intro exI [of _ "j - i"]) simp
  qed
  from ij consider "i < j" | "j < i" by linarith
  then show ?thesis
  proof cases
    case 1
    with ij show ?thesis by (intro main [of i j]) simp_all
  next
    case 2
    with ij show ?thesis by (intro main [of j i]) simp_all
  qed
qed

text \<open>
  The loop, once the underlying permute operation is known to compute \<open>f\<close> on the states
  that satisfy \<open>I\<close>: it stops after the first iterate of \<open>f\<close> that is below \<open>n\<close>.
\<close>

lemma cycle_walk_steps:
  fixes permute :: "'p \<Rightarrow> int \<Rightarrow> bytes \<Rightarrow> error + ('p \<times> int)"
  assumes step: "\<And>p x. I p \<Longrightarrow> x \<in> D \<Longrightarrow> \<exists>p'. permute p x tw = Inr (p', f x) \<and> I p'"
    and closed: "f ` D \<subseteq> D"
  shows "I p \<Longrightarrow> x \<in> D \<Longrightarrow> (f ^^ Suc k) x < n \<Longrightarrow> (\<forall>j<k. \<not> (f ^^ Suc j) x < n) \<Longrightarrow>
         \<exists>p'. cycle_walk permute n tw p x = Some (Inr (p', (f ^^ Suc k) x)) \<and> I p'"
proof (induction k arbitrary: p x)
  case 0
  from step [OF 0(1,2)] obtain p' where p': "permute p x tw = Inr (p', f x)" "I p'" by blast
  from 0(3) have "f x < n" by simp
  with p' show ?case by (subst cycle_walk.simps) simp
next
  case (Suc k)
  from step [OF Suc.prems(1,2)] obtain p' where p': "permute p x tw = Inr (p', f x)" "I p'"
    by blast
  from Suc.prems(4) have nlt: "\<not> f x < n" by (auto dest: spec [of _ 0])
  have fx: "f x \<in> D" using closed Suc.prems(2) by auto
  have "(f ^^ Suc k) (f x) < n" using Suc.prems(3) by (simp add: funpow_swap1)
  moreover have "\<forall>j<k. \<not> (f ^^ Suc j) (f x) < n"
  proof (intro allI impI)
    fix j assume "j < k"
    then have "Suc j < Suc k" by simp
    with Suc.prems(4) have "\<not> (f ^^ Suc (Suc j)) x < n" by blast
    then show "\<not> (f ^^ Suc j) (f x) < n" by (simp add: funpow_swap1)
  qed
  ultimately obtain p'' where
    "cycle_walk permute n tw p' (f x) = Some (Inr (p'', (f ^^ Suc k) (f x)))" and "I p''"
    using Suc.IH [OF p'(2) fx] by blast
  moreover have "(f ^^ Suc k) (f x) = (f ^^ Suc (Suc k)) x" by (simp add: funpow_swap1)
  ultimately show ?case using p' nlt by (subst cycle_walk.simps) simp
qed

lemma first_return_below:
  assumes fin: "finite D" and inj: "inj_on f D" and closed: "f ` D \<subseteq> D"
    and x: "x \<in> D" and xn: "x < n"
  shows "\<exists>k. k < card D \<and> (f ^^ Suc k) x < n \<and> (\<forall>j<k. \<not> (f ^^ Suc j) x < n)"
proof -
  from orbit_returns [OF fin inj closed x]
  obtain m where m: "0 < m" "m \<le> card D" "(f ^^ m) x = x" by blast
  then obtain m' where m': "m = Suc m'" by (cases m) auto
  with m xn have "(f ^^ Suc m') x < n" by simp
  then have "\<exists>k. (f ^^ Suc k) x < n" by blast
  then have "\<exists>k. (f ^^ Suc k) x < n \<and> (\<forall>j<k. \<not> (f ^^ Suc j) x < n)"
    by (rule exists_least_iff [of "\<lambda>k. (f ^^ Suc k) x < n", THEN iffD1])
  then obtain k where k: "(f ^^ Suc k) x < n" "\<forall>j<k. \<not> (f ^^ Suc j) x < n"
    by blast
  have "k \<le> m'"
  proof (rule ccontr)
    assume "\<not> k \<le> m'"
    then have "m' < k" by simp
    with k(2) have "\<not> (f ^^ Suc m') x < n" by blast
    with \<open>(f ^^ Suc m') x < n\<close> show False by contradiction
  qed
  with m m' have "k < card D" by simp
  with k show ?thesis by blast
qed

lemma cycle_walk_returns:
  fixes permute :: "'p \<Rightarrow> int \<Rightarrow> bytes \<Rightarrow> error + ('p \<times> int)"
  assumes bij: "bij_betw f {0..<2 ^ l} {0..<2 ^ l}"
    and step: "\<And>p x. I p \<Longrightarrow> 0 \<le> x \<Longrightarrow> x < 2 ^ l
                 \<Longrightarrow> \<exists>p'. permute p x tw = Inr (p', f x) \<and> I p'"
    and n: "n \<le> 2 ^ l" and x: "0 \<le> x" "x < n" and p: "I p"
  shows "\<exists>p' k. 0 < k \<and> k \<le> 2 ^ l \<and>
           cycle_walk permute n tw p x = Some (Inr (p', (f ^^ k) x)) \<and>
           0 \<le> (f ^^ k) x \<and> (f ^^ k) x < n \<and> (\<forall>j. 0 < j \<and> j < k \<longrightarrow> \<not> (f ^^ j) x < n) \<and>
           I p'"
proof -
  let ?D = "{0..<2 ^ l} :: int set"
  have fin: "finite ?D" by simp
  have inj: "inj_on f ?D" and img: "f ` ?D = ?D" using bij by (simp_all add: bij_betw_def)
  then have closed: "f ` ?D \<subseteq> ?D" by simp
  have xD: "x \<in> ?D" using x n by simp
  have step': "\<And>p x. I p \<Longrightarrow> x \<in> ?D \<Longrightarrow> \<exists>p'. permute p x tw = Inr (p', f x) \<and> I p'"
    using step by simp
  from first_return_below [OF fin inj closed xD x(2)]
  obtain k where k: "k < card ?D" "(f ^^ Suc k) x < n" "\<forall>j<k. \<not> (f ^^ Suc j) x < n" by blast
  from cycle_walk_steps [of I ?D permute tw f, OF step' closed p xD k(2,3)]
  obtain p' where w: "cycle_walk permute n tw p x = Some (Inr (p', (f ^^ Suc k) x))" and "I p'"
    by blast
  have "(f ^^ Suc k) x \<in> ?D" using closed xD by (rule funpow_closed)
  then have nonneg: "0 \<le> (f ^^ Suc k) x" by simp
  have first: "\<forall>j. 0 < j \<and> j < Suc k \<longrightarrow> \<not> (f ^^ j) x < n"
  proof (intro allI impI)
    fix j assume "0 < j \<and> j < Suc k"
    then obtain j' where "j = Suc j'" "j' < k" by (cases j) auto
    with k(3) show "\<not> (f ^^ j) x < n" by simp
  qed
  have "card ?D = nat (2 ^ l)" by simp
  also have "\<dots> = 2 ^ l" by (simp add: nat_power_eq)
  finally have "card ?D = 2 ^ l" .
  with k(1) have "Suc k \<le> 2 ^ l" by (simp only: Suc_le_eq)
  with w nonneg k(2) first \<open>I p'\<close> show ?thesis
    by (intro exI [of _ p'] exI [of _ "Suc k"]) simp
qed


text \<open>
  C3. Let the underlying fixed-domain permute operation compute a bijection \<open>f\<close> on
  \<open>[0, 2 ^ lengthBits)\<close> (on the engine states \<open>I\<close> that calls can leave), and let
  \<open>N \<le> 2 ^ lengthBits\<close>.  Then for every input in \<open>[0, N)\<close> the cycle-walking loop of
  \<open>ArbitraryN.PermuteInPlace\<close> returns: some number \<open>k\<close> of applications of \<open>f\<close>, at least one
  and at most \<open>2 ^ lengthBits\<close>, gives a value below \<open>N\<close>, and the loop returns the first such
  value.
\<close>

theorem cycle_walk_terminates:
  fixes permute :: "'p \<Rightarrow> int \<Rightarrow> bytes \<Rightarrow> error + ('p \<times> int)"
  assumes bij: "bij_betw f {0..<2 ^ l} {0..<2 ^ l}"
    and step: "\<And>p x. I p \<Longrightarrow> 0 \<le> x \<Longrightarrow> x < 2 ^ l
                 \<Longrightarrow> \<exists>p'. permute p x tw = Inr (p', f x) \<and> I p'"
    and n: "n \<le> 2 ^ l" and x: "0 \<le> x" "x < n" and p: "I p"
  shows "\<exists>p' k. 0 < k \<and> k \<le> 2 ^ l \<and>
           cycle_walk permute n tw p x = Some (Inr (p', (f ^^ k) x)) \<and>
           0 \<le> (f ^^ k) x \<and> (f ^^ k) x < n \<and> (\<forall>j. 0 < j \<and> j < k \<longrightarrow> \<not> (f ^^ j) x < n) \<and>
           I p'"
  using assms by (rule cycle_walk_returns)

theorem cycle_walk_terminates_witness:
  "\<exists>p' k. 0 < k \<and> k \<le> 2 ^ 2 \<and>
     cycle_walk (\<lambda>p x tw. Inr (p, (x + 1) mod 4)) 3 [] () 2
       = Some (Inr (p', ((\<lambda>x. (x + 1) mod 4) ^^ k) 2)) \<and>
     0 \<le> ((\<lambda>x. (x + 1) mod 4) ^^ k) (2::int) \<and> ((\<lambda>x. (x + 1) mod 4) ^^ k) (2::int) < 3"
proof -
  let ?f = "\<lambda>x::int. (x + 1) mod 4"
  have val: "(\<lambda>x. Some (?f x)) x = Some (?f x)" if "take_bit 2 x = x" for x
    by simp
  have range: "take_bit 2 (?f x) = ?f x" if "take_bit 2 x = x" for x
    by (simp add: take_bit_int_eq_self_iff)
  have inj: "x = y" if "take_bit 2 x = x" "take_bit 2 y = y" "?f x = ?f y" for x y
  proof -
    from that(1,2) have "0 \<le> x" "x < 4" "0 \<le> y" "y < 4"
      by (simp_all add: take_bit_int_eq_self_iff)
    with that(3) show ?thesis by presburger
  qed
  from val range inj have bij: "bij_betw ?f {0..<2 ^ 2} {0..<2 ^ 2}"
    by (rule permutation_of_domain(3))
  have step: "\<exists>p'. (\<lambda>p x tw. Inr (p, ?f x)) p x [] = Inr (p', ?f x) \<and> (\<lambda>p. True) p'"
    if "(\<lambda>p. True) p" "0 \<le> x" "x < 2 ^ 2" for p :: unit and x :: int
    by simp
  have n: "(3::int) \<le> 2 ^ 2" and x0: "(0::int) \<le> 2" and xn: "(2::int) < 3" by simp_all
  have "(\<lambda>p::unit. True) ()" by simp
  from cycle_walk_terminates [of ?f 2 "\<lambda>p. True" "\<lambda>p x tw. Inr (p, ?f x)" "[]" 3 2 "()",
      OF bij step n x0 xn this]
  obtain p' k where "0 < k" "k \<le> 2 ^ 2"
    "cycle_walk (\<lambda>p x tw. Inr (p, ?f x)) 3 [] () 2 = Some (Inr (p', (?f ^^ k) 2))"
    "0 \<le> (?f ^^ k) 2" "(?f ^^ k) 2 < 3"
    by blast
  then show ?thesis by (intro exI [of _ p'] exI [of _ k] conjI)
qed

section \<open>The range adapter\<close>

text \<open>The value the loop returns, as a function of the input: the first iterate below \<open>n\<close>.\<close>

definition walk_to :: "(int \<Rightarrow> int) \<Rightarrow> int \<Rightarrow> int \<Rightarrow> int" where
  "walk_to f n x = (f ^^ Suc (LEAST k. (f ^^ Suc k) x < n)) x"

lemma walk_to_eq:
  assumes "(f ^^ Suc k) x < n" and "\<forall>j<k. \<not> (f ^^ Suc j) x < n"
  shows "walk_to f n x = (f ^^ Suc k) x"
proof -
  have "(LEAST k. (f ^^ Suc k) x < n) = k"
  proof (rule Least_equality)
    show "(f ^^ Suc k) x < n" by (rule assms)
    fix j assume "(f ^^ Suc j) x < n"
    with assms(2) show "k \<le> j" by (meson not_le_imp_less)
  qed
  then show ?thesis by (simp only: walk_to_def)
qed

lemma cycle_walk_value:
  fixes permute :: "'p \<Rightarrow> int \<Rightarrow> bytes \<Rightarrow> error + ('p \<times> int)"
  assumes bij: "bij_betw f {0..<2 ^ l} {0..<2 ^ l}"
    and step: "\<And>p x. I p \<Longrightarrow> 0 \<le> x \<Longrightarrow> x < 2 ^ l
                 \<Longrightarrow> \<exists>p'. permute p x tw = Inr (p', f x) \<and> I p'"
    and n: "n \<le> 2 ^ l" and x: "0 \<le> x" "x < n" and p: "I p"
  shows "\<exists>p'. cycle_walk permute n tw p x = Some (Inr (p', walk_to f n x)) \<and> I p'"
    and "0 \<le> walk_to f n x" and "walk_to f n x < n"
proof -
  from cycle_walk_returns [of f l I permute tw n x p, OF assms]
  obtain p' k where k: "0 < k"
    and w: "cycle_walk permute n tw p x = Some (Inr (p', (f ^^ k) x))"
    and r: "0 \<le> (f ^^ k) x" "(f ^^ k) x < n"
    and first: "\<forall>j. 0 < j \<and> j < k \<longrightarrow> \<not> (f ^^ j) x < n" and p': "I p'"
    by blast
  from k obtain k' where k': "k = Suc k'" by (cases k) auto
  have "\<forall>j<k'. \<not> (f ^^ Suc j) x < n"
  proof (intro allI impI)
    fix j assume "j < k'"
    then have "0 < Suc j \<and> Suc j < k" by (simp add: k')
    with first show "\<not> (f ^^ Suc j) x < n" by blast
  qed
  with r(2) have "walk_to f n x = (f ^^ k) x" unfolding k' by (rule walk_to_eq)
  with w r p' show "\<exists>p'. cycle_walk permute n tw p x = Some (Inr (p', walk_to f n x)) \<and> I p'"
    and "0 \<le> walk_to f n x" and "walk_to f n x < n" by auto
qed

lemma walk_to_inj:
  assumes bij: "bij_betw f {0..<2 ^ l} {0..<2 ^ l}" and n: "n \<le> 2 ^ l"
    and x: "0 \<le> x" "x < n" and y: "0 \<le> y" "y < n"
    and eq: "walk_to f n x = walk_to f n y"
  shows "x = y"
proof -
  let ?D = "{0..<2 ^ l} :: int set"
  have fin: "finite ?D" by simp
  have inj: "inj_on f ?D" and closed: "f ` ?D \<subseteq> ?D" using bij by (simp_all add: bij_betw_def)
  have xD: "x \<in> ?D" and yD: "y \<in> ?D" using x y n by simp_all
  from first_return_below [OF fin inj closed xD x(2)]
  obtain k where k: "(f ^^ Suc k) x < n" "\<forall>j<k. \<not> (f ^^ Suc j) x < n" by blast
  from first_return_below [OF fin inj closed yD y(2)]
  obtain m where m: "(f ^^ Suc m) y < n" "\<forall>j<m. \<not> (f ^^ Suc j) y < n" by blast
  from eq have e: "(f ^^ Suc k) x = (f ^^ Suc m) y"
    by (simp only: walk_to_eq [OF k] walk_to_eq [OF m])
  have main: "u = v"
    if "u \<in> ?D" "v \<in> ?D" "v < n" "(f ^^ Suc a) u = (f ^^ Suc b) v" "a \<le> b"
      "\<forall>j<b. \<not> (f ^^ Suc j) v < n" "u < n" for u v a b
  proof -
    from that(5) have "(f ^^ Suc b) v = (f ^^ Suc a) ((f ^^ (b - a)) v)"
      by (simp flip: funpow_add [THEN fun_cong, unfolded o_apply] del: funpow.simps)
    with that(4) have e': "(f ^^ Suc a) u = (f ^^ Suc a) ((f ^^ (b - a)) v)" by simp
    have d: "(f ^^ (b - a)) v \<in> ?D" using closed that(2) by (rule funpow_closed)
    from inj_onD [OF funpow_inj_on [OF inj closed, of "Suc a"] e' that(1) d]
    have u: "u = (f ^^ (b - a)) v" .
    show ?thesis
    proof (cases "b - a")
      case 0
      with u show ?thesis by simp
    next
      case (Suc j)
      then have "j < b" by simp
      with that(6) have "\<not> (f ^^ Suc j) v < n" by blast
      with u Suc that(7) show ?thesis by simp
    qed
  qed
  show ?thesis
  proof (cases "k \<le> m")
    case True
    from main [OF xD yD y(2) e True m(2) x(2)] show ?thesis .
  next
    case False
    then have "m \<le> k" by simp
    from main [OF yD xD x(2) e [symmetric] this k(2) y(2)] show ?thesis by simp
  qed
qed


text \<open>The value a call of the range adapter returns: \<open>None\<close> where it panics or never returns.\<close>

definition returned :: "(error + ('s \<times> 'v)) option \<Rightarrow> 'v option" where
  "returned r = (case r of None \<Rightarrow> None | Some e \<Rightarrow> permuted e)"

lemma returned_simps [simp]:
  "returned None = None" "returned (Some (Inl e)) = None" "returned (Some (Inr (s, y))) = Some y"
  by (simp_all add: returned_def)

text \<open>The width \<open>NewN\<close> derives from \<open>n\<close>.\<close>

definition width_of :: "int \<Rightarrow> int" where
  "width_of n = (if BitLen (n - 1) \<le> 1 then 2 else BitLen (n - 1))"

text \<open>The engine \<open>NewN\<close> builds for \<open>n\<close>, in any state calls can leave it in.\<close>

definition engine_of :: "prims \<Rightarrow> bytes \<Rightarrow> int \<Rightarrow> Permutation \<Rightarrow> bool" where
  "engine_of pr key n p \<longleftrightarrow>
     (if 8 \<le> width_of n \<and> width_of n \<le> 128
      then \<exists>s. p = PermFFX s \<and> ffx_reachable pr key (width_of n) s
      else \<exists>t. p = PermFeistelSHAKE128 t \<and> fs_reachable pr key (width_of n) t)"

text \<open>The function the engine computes on its domain.\<close>

definition perm_pure :: "Permutation \<Rightarrow> bytes \<Rightarrow> int \<Rightarrow> int" where
  "perm_pure p tw x = (case p of PermFFX s \<Rightarrow> ffx_perm s tw x
                       | PermFeistelSHAKE128 t \<Rightarrow> fs_perm t tw x)"

inductive an_reachable :: "prims \<Rightarrow> bytes \<Rightarrow> int \<Rightarrow> ArbitraryN \<Rightarrow> bool" for pr key n where
  an_new: "NewN pr key n = Inr s \<Longrightarrow> an_reachable pr key n s"
| an_permute: "an_reachable pr key n s \<Longrightarrow>
    ArbitraryN_PermuteInPlace s x tw = Some (Inr (s', y)) \<Longrightarrow> an_reachable pr key n s'"

lemma width_of_ge_2: "2 \<le> width_of n"
  by (simp add: width_of_def)

lemma NewN_engine:
  assumes "NewN pr key n = Inr s"
  shows "an_n s = n" and "engine_of pr key n (an_p s)"
proof -
  let ?l = "width_of n"
  have shape: "NewN pr key n =
     (case (if 8 \<le> ?l \<and> ?l \<le> 128 then map_sum id PermFFX (NewFFX pr key ?l)
            else map_sum id PermFeistelSHAKE128 (NewPowerOf2 pr key ?l)) of
        Inl e \<Rightarrow> Inl e | Inr p \<Rightarrow> Inr \<lparr> an_p = p, an_n = n \<rparr>)"
    by (simp add: NewN_def Let_def width_of_def)
  show "an_n s = n" using assms unfolding shape by (auto split: sum.splits)
  show "engine_of pr key n (an_p s)"
  proof (cases "8 \<le> ?l \<and> ?l \<le> 128")
    case True
    with assms obtain e where "NewFFX pr key ?l = Inr e" "an_p s = PermFFX e"
      unfolding shape by (cases "NewFFX pr key ?l") auto
    with True show ?thesis by (auto simp: engine_of_def intro: ffx_new)
  next
    case False
    with assms obtain e where "NewPowerOf2 pr key ?l = Inr e" "an_p s = PermFeistelSHAKE128 e"
      unfolding shape by (cases "NewPowerOf2 pr key ?l") auto
    with False show ?thesis by (auto simp: engine_of_def intro: fs_new)
  qed
qed

lemma engine_of_step:
  assumes "engine_of pr key n p" and "Permutation_PermuteInPlace p x tw = Inr (p', y)"
  shows "engine_of pr key n p'"
proof (cases "8 \<le> width_of n \<and> width_of n \<le> 128")
  case True
  with assms(1) obtain s where s: "p = PermFFX s" "ffx_reachable pr key (width_of n) s"
    by (auto simp: engine_of_def)
  with assms(2) obtain s' where "FFX_PermuteInPlace s x tw = Inr (s', y)" "p' = PermFFX s'"
    by (auto split: sum.splits)
  with s True show ?thesis by (auto simp: engine_of_def intro: ffx_permute)
next
  case False
  with assms(1) obtain t where
    t: "p = PermFeistelSHAKE128 t" "fs_reachable pr key (width_of n) t"
    by (auto simp: engine_of_def)
  with assms(2) obtain t' where "FS_PermuteInPlace t x tw = Inr (t', y)"
    "p' = PermFeistelSHAKE128 t'"
    by (auto split: sum.splits)
  with t False show ?thesis by (auto simp: engine_of_def intro: fs_permute)
qed

lemma engine_of_permutes:
  assumes e: "engine_of pr key n p" and x: "0 \<le> x" "x < 2 ^ nat (width_of n)"
  shows "\<exists>p'. Permutation_PermuteInPlace p x tw = Inr (p', perm_pure p tw x)"
proof -
  from x have fits: "take_bit (nat (width_of n)) x = x" by (simp add: take_bit_int_eq_self_iff)
  show ?thesis
  proof (cases "8 \<le> width_of n \<and> width_of n \<le> 128")
    case True
    with e obtain s where s: "p = PermFFX s" "ffx_reachable pr key (width_of n) s"
      by (auto simp: engine_of_def)
    from ffx_reachable_permutes(3) [OF s(2), of x tw] s(1) show ?thesis
      by (auto simp: perm_pure_def)
  next
    case False
    with e obtain t where t: "p = PermFeistelSHAKE128 t" "fs_reachable pr key (width_of n) t"
      by (auto simp: engine_of_def)
    from fs_reachable_permutes(3) [OF t(2) fits, of tw] t(1) show ?thesis
      by (auto simp: perm_pure_def)
  qed
qed

lemma engine_of_pure_eq:
  assumes "engine_of pr key n p" and "engine_of pr key n p'"
  shows "perm_pure p' tw = perm_pure p tw"
proof (cases "8 \<le> width_of n \<and> width_of n \<le> 128")
  case True
  with assms obtain s s' where s: "p = PermFFX s" "ffx_reachable pr key (width_of n) s"
    "p' = PermFFX s'" "ffx_reachable pr key (width_of n) s'"
    by (auto simp: engine_of_def)
  from s(2) obtain s0 where s0: "NewFFX pr key (width_of n) = Inr s0"
    by (auto dest: ffx_reachable_new)
  from ffx_reachable_inv [OF s(2) s0] ffx_reachable_inv [OF s(4) s0]
  have "ffx_static s0 s" "ffx_static s0 s'" by simp_all
  then have "ffx_static s s'" by (blast intro: ffx_static_trans ffx_static_sym)
  then have "ffx_perm s' tw x = ffx_perm s tw x" for x by (rule ffx_perm_static)
  with s show ?thesis by (simp add: perm_pure_def fun_eq_iff)
next
  case False
  with assms obtain t t' where t: "p = PermFeistelSHAKE128 t"
    "fs_reachable pr key (width_of n) t" "p' = PermFeistelSHAKE128 t'"
    "fs_reachable pr key (width_of n) t'"
    by (auto simp: engine_of_def)
  from t(2) obtain t0 where t0: "NewPowerOf2 pr key (width_of n) = Inr t0"
    by (auto dest: fs_reachable_new)
  from fs_reachable_inv [OF t(2) t0] fs_reachable_inv [OF t(4) t0]
  have "fs_same t0 t" "fs_same t0 t'" by simp_all
  then have "fs_same t t'" by (simp add: fs_same_def)
  then have "fs_perm t' tw x = fs_perm t tw x" for x by (rule fs_perm_same)
  with t show ?thesis by (simp add: perm_pure_def fun_eq_iff)
qed

lemma engine_of_bij:
  assumes e: "engine_of pr key n p"
  shows "bij_betw (perm_pure p tw) {0..<2 ^ nat (width_of n)} {0..<2 ^ nat (width_of n)}"
proof (cases "8 \<le> width_of n \<and> width_of n \<le> 128")
  case True
  with e obtain s where s: "p = PermFFX s" "ffx_reachable pr key (width_of n) s"
    by (auto simp: engine_of_def)
  note r = ffx_reachable_permutes [OF s(2)]
  have val: "Some (ffx_perm s tw x) = Some (ffx_perm s tw x)"
    if "take_bit (nat (width_of n)) x = x" for x by simp
  have range: "take_bit (nat (width_of n)) (ffx_perm s tw x) = ffx_perm s tw x"
    if "take_bit (nat (width_of n)) x = x" for x
    using ffx_perm_in_range [OF r(2), of x tw] that by (simp add: r(1))
  have inj: "x = y" if "take_bit (nat (width_of n)) x = x" "take_bit (nat (width_of n)) y = y"
    "ffx_perm s tw x = ffx_perm s tw y" for x y
    using ffx_perm_inj [OF r(2), of x y tw] that by (simp add: r(1))
  from val range inj
  have "bij_betw (ffx_perm s tw) {0..<2 ^ nat (width_of n)} {0..<2 ^ nat (width_of n)}"
    by (rule permutation_of_domain(3))
  moreover have "perm_pure p tw = ffx_perm s tw" by (simp add: perm_pure_def s(1) fun_eq_iff)
  ultimately show ?thesis by simp
next
  case False
  with e obtain t where t: "p = PermFeistelSHAKE128 t" "fs_reachable pr key (width_of n) t"
    by (auto simp: engine_of_def)
  note r = fs_reachable_permutes [OF t(2)]
  have val: "Some (fs_perm t tw x) = Some (fs_perm t tw x)"
    if "take_bit (nat (width_of n)) x = x" for x by simp
  have range: "take_bit (nat (width_of n)) (fs_perm t tw x) = fs_perm t tw x"
    if "take_bit (nat (width_of n)) x = x" for x
    using fs_perm_in_range [OF _ r(2), of x tw] that by (simp add: r(1))
  have inj: "x = y" if "take_bit (nat (width_of n)) x = x" "take_bit (nat (width_of n)) y = y"
    "fs_perm t tw x = fs_perm t tw y" for x y
    using fs_perm_inj [OF _ _ r(2), of x y tw] that by (simp add: r(1))
  from val range inj
  have "bij_betw (fs_perm t tw) {0..<2 ^ nat (width_of n)} {0..<2 ^ nat (width_of n)}"
    by (rule permutation_of_domain(3))
  moreover have "perm_pure p tw = fs_perm t tw" by (simp add: perm_pure_def t(1) fun_eq_iff)
  ultimately show ?thesis by simp
qed

text \<open>Whatever the input, a state the loop returns is a state of the same engine.\<close>

lemma cycle_walk_engine:
  assumes w: "cycle_walk Permutation_PermuteInPlace m tw p x = Some (Inr (p', y))"
    and e: "engine_of pr key n p"
  shows "engine_of pr key n p'"
proof -
  define P where "P = (\<lambda>(permute :: Permutation \<Rightarrow> int \<Rightarrow> bytes \<Rightarrow> error + (Permutation \<times> int))
      (m :: int) (tw :: bytes) p (x :: int) (r :: error + (Permutation \<times> int)).
      permute = Permutation_PermuteInPlace \<longrightarrow> engine_of pr key n p \<longrightarrow>
        (\<forall>p' (y :: int). r = Inr (p', y) \<longrightarrow> engine_of pr key n p'))"
  have "P Permutation_PermuteInPlace m tw p x (Inr (p', y))"
  proof (rule cycle_walk.raw_induct [where P = P])
    show "cycle_walk Permutation_PermuteInPlace m tw p x = Some (Inr (p', y))" by (rule w)
  next
    fix walk and permute :: "Permutation \<Rightarrow> int \<Rightarrow> bytes \<Rightarrow> error + (Permutation \<times> int)"
      and m :: int and tw :: bytes and p and x :: int and r
    assume IH: "\<And>permute m tw p x r. walk permute m tw p x = Some r \<Longrightarrow> P permute m tw p x r"
      and eq: "(case permute p x tw of Inl e \<Rightarrow> Some (Inl e)
                | Inr (p', out) \<Rightarrow> if out < m then Some (Inr (p', out))
                                   else walk permute m tw p' out) = Some r"
    show "P permute m tw p x r"
      unfolding P_def
    proof (intro impI allI)
      fix p' y
      assume pm: "permute = Permutation_PermuteInPlace" and e: "engine_of pr key n p"
        and r: "r = Inr (p', y)"
      from eq pm r obtain p1 y1 where s: "Permutation_PermuteInPlace p x tw = Inr (p1, y1)"
        by (cases "Permutation_PermuteInPlace p x tw") (auto split: if_splits)
      from e s have e1: "engine_of pr key n p1" by (rule engine_of_step)
      show "engine_of pr key n p'"
      proof (cases "y1 < m")
        case True
        with eq pm r s have "p' = p1" by simp
        with e1 show ?thesis by simp
      next
        case False
        with eq pm s have "walk permute m tw p1 y1 = Some r" by simp
        from IH [OF this] pm e1 r show ?thesis by (simp add: P_def)
      qed
    qed
  qed
  with e show ?thesis by (simp add: P_def)
qed


lemma width_of_covers:
  assumes "1 \<le> n"
  shows "n \<le> 2 ^ nat (width_of n)"
proof -
  define m where "m = nat (n - 1)"
  have n_eq: "n = int m + 1" using assms by (simp add: m_def)
  have bl: "BitLen (n - 1) = int (bit_len m)" using assms by (simp add: BitLen_def m_def)
  have "m < 2 ^ bit_len m" by (rule bit_len_upper)
  also have "\<dots> \<le> 2 ^ nat (width_of n)"
    by (rule power_increasing) (simp_all add: width_of_def bl)
  finally have "Suc m \<le> 2 ^ nat (width_of n)" by simp
  then have "int (Suc m) \<le> int (2 ^ nat (width_of n))" by (simp only: of_nat_le_iff)
  then show ?thesis by (simp add: n_eq)
qed

lemma ArbitraryN_PermuteInPlace_Inr:
  assumes "ArbitraryN_PermuteInPlace s x tw = Some (Inr (s', y))"
  shows "\<exists>p'. cycle_walk Permutation_PermuteInPlace (an_n s) tw (an_p s) x = Some (Inr (p', y))
           \<and> s' = s\<lparr> an_p := p' \<rparr>"
  using assms
  by (auto simp: ArbitraryN_PermuteInPlace_def split: if_splits option.splits sum.splits)

lemma an_reachable_inv:
  assumes "an_reachable pr key n s"
  shows "an_n s = n \<and> engine_of pr key n (an_p s)"
  using assms
proof (induction rule: an_reachable.induct)
  case (an_new s)
  then show ?case by (simp add: NewN_engine)
next
  case (an_permute s x tw s' y)
  from ArbitraryN_PermuteInPlace_Inr [OF an_permute(2)] obtain p' where
    w: "cycle_walk Permutation_PermuteInPlace (an_n s) tw (an_p s) x = Some (Inr (p', y))"
    and s': "s' = s\<lparr> an_p := p' \<rparr>" by blast
  from an_permute(3) have "engine_of pr key n (an_p s)" by simp
  with w have "engine_of pr key n p'" by (rule cycle_walk_engine)
  with an_permute(3) s' show ?case by simp
qed

lemma an_permute_value:
  assumes r: "an_reachable pr key n s" and x: "0 \<le> x" "x < n"
  shows "\<exists>s'. ArbitraryN_PermuteInPlace s x tw
            = Some (Inr (s', walk_to (perm_pure (an_p s) tw) n x))"
    and "0 \<le> walk_to (perm_pure (an_p s) tw) n x"
    and "walk_to (perm_pure (an_p s) tw) n x < n"
proof -
  let ?f = "perm_pure (an_p s) tw"
  let ?l = "nat (width_of n)"
  from an_reachable_inv [OF r] have n: "an_n s = n" and e: "engine_of pr key n (an_p s)"
    by simp_all
  from x have "1 \<le> n" by simp
  then have cover: "n \<le> 2 ^ ?l" by (rule width_of_covers)
  have bij: "bij_betw ?f {0..<2 ^ ?l} {0..<2 ^ ?l}" using e by (rule engine_of_bij)
  have step: "\<exists>p'. Permutation_PermuteInPlace p x tw = Inr (p', ?f x) \<and> engine_of pr key n p'"
    if "engine_of pr key n p" "0 \<le> x" "x < 2 ^ ?l" for p x
  proof -
    from engine_of_permutes [OF that, of tw] obtain p' where
      p': "Permutation_PermuteInPlace p x tw = Inr (p', perm_pure p tw x)" by blast
    from that(1) p' have "engine_of pr key n p'" by (rule engine_of_step)
    moreover have "perm_pure p tw = ?f" using e that(1) by (rule engine_of_pure_eq)
    ultimately show ?thesis using p' by simp
  qed
  note v = cycle_walk_value [of ?f ?l "engine_of pr key n" Permutation_PermuteInPlace tw n x
      "an_p s", OF bij step cover x e]
  from v(1) obtain p' where
    "cycle_walk Permutation_PermuteInPlace n tw (an_p s) x = Some (Inr (p', walk_to ?f n x))"
    by blast
  then have "ArbitraryN_PermuteInPlace s x tw
      = Some (Inr (s\<lparr> an_p := p' \<rparr>, walk_to ?f n x))"
    using x by (simp add: ArbitraryN_PermuteInPlace_def n)
  then show "\<exists>s'. ArbitraryN_PermuteInPlace s x tw = Some (Inr (s', walk_to ?f n x))" by blast
  show "0 \<le> walk_to ?f n x" by (rule v(2))
  show "walk_to ?f n x < n" by (rule v(3))
qed

lemma an_walk_inj:
  assumes r: "an_reachable pr key n s" and x: "0 \<le> x" "x < n" and y: "0 \<le> y" "y < n"
    and eq: "walk_to (perm_pure (an_p s) tw) n x = walk_to (perm_pure (an_p s) tw) n y"
  shows "x = y"
proof -
  from an_reachable_inv [OF r] have e: "engine_of pr key n (an_p s)" by simp
  from x have "1 \<le> n" by simp
  then have cover: "n \<le> 2 ^ nat (width_of n)" by (rule width_of_covers)
  from engine_of_bij [OF e, of tw] cover x y eq show ?thesis by (rule walk_to_inj)
qed

lemma sint_Int64:
  assumes "0 \<le> y" and "y < 2 ^ 63"
  shows "sint (Int64 y) = y"
proof -
  from assms have "signed_take_bit 63 y = y"
    by (intro signed_take_bit_int_eq_self) simp_all
  with assms(1) show ?thesis by (simp add: Int64_def sint_sbintrunc')
qed


lemma NewN_total: "\<exists>a. NewN pr key n = Inr a"
proof -
  let ?l = "width_of n"
  have shape: "NewN pr key n =
     (case (if 8 \<le> ?l \<and> ?l \<le> 128 then map_sum id PermFFX (NewFFX pr key ?l)
            else map_sum id PermFeistelSHAKE128 (NewPowerOf2 pr key ?l)) of
        Inl e \<Rightarrow> Inl e | Inr p \<Rightarrow> Inr \<lparr> an_p = p, an_n = n \<rparr>)"
    by (simp add: NewN_def Let_def width_of_def)
  show ?thesis
  proof (cases "8 \<le> ?l \<and> ?l \<le> 128")
    case True
    then obtain e where "NewFFX pr key ?l = Inr e" using NewFFX_ok [of ?l pr key] by blast
    with True show ?thesis by (simp add: shape)
  next
    case False
    obtain e where "NewPowerOf2 pr key ?l = Inr e"
      using NewPowerOf2_ok [OF width_of_ge_2, of pr key n] by blast
    with False show ?thesis by (auto simp: shape)
  qed
qed

lemma option_permutation:
  assumes fin: "finite D"
    and val: "\<And>x. x \<in> D \<Longrightarrow> g x = Some (w x)"
    and range: "\<And>x. x \<in> D \<Longrightarrow> w x \<in> D"
    and inj: "\<And>x y. x \<in> D \<Longrightarrow> y \<in> D \<Longrightarrow> w x = w y \<Longrightarrow> x = y"
  shows "inj_on g D" and "g ` D = Some ` D"
proof -
  have w_inj: "inj_on w D" by (rule inj_onI) (rule inj)
  have "w ` D \<subseteq> D" using range by blast
  with fin have w_img: "w ` D = D" using w_inj by (rule endo_inj_surj)
  show "inj_on g D"
  proof (rule inj_onI)
    fix x y assume x: "x \<in> D" and y: "y \<in> D" and "g x = g y"
    then have "w x = w y" by (simp add: val)
    with x y show "x = y" by (rule inj)
  qed
  have "g ` D = (\<lambda>x. Some (w x)) ` D" by (rule image_cong) (simp_all add: val)
  also have "\<dots> = Some ` w ` D" by (simp add: image_image)
  finally show "g ` D = Some ` D" by (simp only: w_img)
qed

text \<open>
  C1, amended.  For every key, every primitive and every \<open>N \<ge> 1\<close>, \<open>NewN\<close> builds a range
  adapter, and in every state calls can leave it in its permute operation maps \<open>[0, N)\<close> into
  \<open>[0, N)\<close>: on every input of that interval \<open>PermuteInPlace\<close> returns, with a value of the
  interval, no two inputs give the same value, and the values are exactly the interval.
  \<open>PermuteInt\<close> does the same on the machine integers of \<open>[0, N)\<close> when \<open>N\<close> is at most
  \<open>2 ^ 63\<close>, so that every value of the interval is a non-negative Go \<open>int\<close>; that it does
  not for a larger \<open>N\<close> is shown after the theorem.
\<close>

theorem range_adapter_is_permutation:
  "(1 \<le> n \<longrightarrow> (\<exists>a. NewN pr key n = Inr a)) \<and>
   (an_reachable pr key n a \<longrightarrow>
      (\<forall>x. 0 \<le> x \<and> x < n \<longrightarrow>
         (\<exists>a' y. ArbitraryN_PermuteInPlace a x tw = Some (Inr (a', y)) \<and> 0 \<le> y \<and> y < n)) \<and>
      inj_on (\<lambda>x. returned (ArbitraryN_PermuteInPlace a x tw)) {0..<n} \<and>
      (\<lambda>x. returned (ArbitraryN_PermuteInPlace a x tw)) ` {0..<n} = Some ` {0..<n}) \<and>
   (an_reachable pr key n a \<and> n \<le> 2 ^ 63 \<longrightarrow>
      (\<forall>i. 0 \<le> sint i \<and> sint i < n \<longrightarrow>
         (\<exists>a' r. ArbitraryN_PermuteInt a i = Some (Inr (a', r)) \<and> 0 \<le> sint r \<and> sint r < n)) \<and>
      inj_on (\<lambda>i. returned (ArbitraryN_PermuteInt a i)) {i. 0 \<le> sint i \<and> sint i < n})"
proof (intro conjI impI)
  show "\<exists>a. NewN pr key n = Inr a" by (rule NewN_total)
next
  assume r: "an_reachable pr key n a"
  let ?w = "\<lambda>x. walk_to (perm_pure (an_p a) tw) n x"
  have val: "returned (ArbitraryN_PermuteInPlace a x tw) = Some (?w x)" if "x \<in> {0..<n}" for x
    using an_permute_value(1) [OF r, of x tw] that by auto
  have range: "?w x \<in> {0..<n}" if "x \<in> {0..<n}" for x
    using an_permute_value(2,3) [OF r, of x tw] that by simp
  have inj: "x = y" if "x \<in> {0..<n}" "y \<in> {0..<n}" "?w x = ?w y" for x y
    using an_walk_inj [OF r, of x y tw] that by simp
  show "\<forall>x. 0 \<le> x \<and> x < n \<longrightarrow>
      (\<exists>a' y. ArbitraryN_PermuteInPlace a x tw = Some (Inr (a', y)) \<and> 0 \<le> y \<and> y < n)"
    using an_permute_value [OF r, of _ tw] by blast
  have fin: "finite {0..<n}" by simp
  from fin val range inj
  show "inj_on (\<lambda>x. returned (ArbitraryN_PermuteInPlace a x tw)) {0..<n}"
    by (rule option_permutation(1))
  from fin val range inj
  show "(\<lambda>x. returned (ArbitraryN_PermuteInPlace a x tw)) ` {0..<n} = Some ` {0..<n}"
    by (rule option_permutation(2))
next
  assume "an_reachable pr key n a \<and> n \<le> 2 ^ 63"
  then have r: "an_reachable pr key n a" and n63: "n \<le> 2 ^ 63" by simp_all
  let ?w = "\<lambda>x. walk_to (perm_pure (an_p a) []) n x"
  have call: "\<exists>a'. ArbitraryN_PermuteInt a i = Some (Inr (a', Int64 (?w (sint i))))"
    and rtrip: "sint (Int64 (?w (sint i))) = ?w (sint i)"
    and lo: "0 \<le> ?w (sint i)" and hi: "?w (sint i) < n"
    if "0 \<le> sint i" "sint i < n" for i
  proof -
    from an_permute_value [OF r that, of "[]"]
    obtain a' where "ArbitraryN_PermuteInPlace a (sint i) [] = Some (Inr (a', ?w (sint i)))"
      and b: "0 \<le> ?w (sint i)" "?w (sint i) < n" by blast
    then show "\<exists>a'. ArbitraryN_PermuteInt a i = Some (Inr (a', Int64 (?w (sint i))))"
      by (simp add: ArbitraryN_PermuteInt_def)
    from b n63 show "sint (Int64 (?w (sint i))) = ?w (sint i)" by (intro sint_Int64) simp_all
    from b show "0 \<le> ?w (sint i)" and "?w (sint i) < n" by simp_all
  qed
  show "\<forall>i. 0 \<le> sint i \<and> sint i < n \<longrightarrow>
      (\<exists>a' r. ArbitraryN_PermuteInt a i = Some (Inr (a', r)) \<and> 0 \<le> sint r \<and> sint r < n)"
  proof (intro allI impI)
    fix i :: go_int assume "0 \<le> sint i \<and> sint i < n"
    then have i: "0 \<le> sint i" "sint i < n" by simp_all
    from call [OF i] rtrip [OF i] lo [OF i] hi [OF i]
    show "\<exists>a' r. ArbitraryN_PermuteInt a i = Some (Inr (a', r)) \<and> 0 \<le> sint r \<and> sint r < n"
      by auto
  qed
  show "inj_on (\<lambda>i. returned (ArbitraryN_PermuteInt a i)) {i. 0 \<le> sint i \<and> sint i < n}"
  proof (rule inj_onI)
    fix i j :: go_int assume "i \<in> {i. 0 \<le> sint i \<and> sint i < n}" and "j \<in> {i. 0 \<le> sint i \<and> sint i < n}"
      and eq: "returned (ArbitraryN_PermuteInt a i) = returned (ArbitraryN_PermuteInt a j)"
    then have i: "0 \<le> sint i" "sint i < n" and j: "0 \<le> sint j" "sint j < n" by simp_all
    from call [OF i] call [OF j] eq have "Int64 (?w (sint i)) = Int64 (?w (sint j))" by auto
    then have "sint (Int64 (?w (sint i))) = sint (Int64 (?w (sint j)))" by simp
    then have "?w (sint i) = ?w (sint j)" by (simp only: rtrip [OF i] rtrip [OF j])
    with r i j have "sint i = sint j" by (rule an_walk_inj)
    then show "i = j" by (simp add: word_eq_iff_signed [where ?'a = int])
  qed
qed


theorem range_adapter_is_permutation_witness:
  "\<exists>a. NewN toy_prims [1] 5 = Inr a \<and>
       (\<exists>a' y. ArbitraryN_PermuteInPlace a 2 [] = Some (Inr (a', y)) \<and> 0 \<le> y \<and> y < 5) \<and>
       (\<lambda>x. returned (ArbitraryN_PermuteInPlace a x [])) ` {0..<5} = Some ` {0..<5} \<and>
       (\<exists>a' r. ArbitraryN_PermuteInt a 2 = Some (Inr (a', r)) \<and> 0 \<le> sint r \<and> sint r < 5)"
proof -
  have one: "(1::int) \<le> 5" and n63: "(5::int) \<le> 2 ^ 63" by simp_all
  from range_adapter_is_permutation
         [where n = 5 and pr = toy_prims and key = "[1]", THEN conjunct1, THEN mp, OF one]
  obtain a where a: "NewN toy_prims [1] 5 = Inr a" ..
  then have r: "an_reachable toy_prims [1] 5 a" by (rule an_new)
  note th = range_adapter_is_permutation
              [where n = 5 and pr = toy_prims and key = "[1]" and a = a and tw = "[]"]
  note inplace = th [THEN conjunct2, THEN conjunct1, THEN mp, OF r]
  note machine = th [THEN conjunct2, THEN conjunct2, THEN mp, OF conjI [OF r n63]]
  have two: "(0::int) \<le> 2 \<and> (2::int) < 5" by simp
  have two': "0 \<le> sint (2 :: go_int) \<and> sint (2 :: go_int) < 5" by simp
  note c1 = inplace [THEN conjunct1, THEN spec, THEN mp, OF two]
  note c2 = inplace [THEN conjunct2, THEN conjunct2]
  note c3 = machine [THEN conjunct1, THEN spec, THEN mp, OF two']
  show ?thesis
  proof (rule exI [of _ a], intro conjI)
    show "NewN toy_prims [1] 5 = Inr a" by (rule a)
  qed (rule c1 c2 c3)+
qed

section \<open>A range wider than a machine integer\<close>

text \<open>
  A second stand-in for the primitives: the block cipher multiplies the block by an odd
  constant and adds the key, which is a bijection of the blocks.
\<close>

definition mul_prims :: prims where
  "mul_prims = \<lparr> hkdf_key = take 16,
      aes_encrypt = (\<lambda>k blk. blk * 0x9E3779B97F4A7C15 + of_nat (be_nat k)),
      shake128 = (\<lambda>msg i. 0) \<rparr>"

text \<open>The engine \<open>NewFFX\<close> builds from it for the key \<open>[1]\<close> and 64 bits.\<close>

definition mul_ffx :: FFX where
  "mul_ffx = \<lparr>ffx_lengthBits = 64, ffx_rounds = 12, ffx_tweakLen = - 1, ffx_mask = 4294967295,
          ffx_p = 5232862374234740155785508624007168, ffx_encryptedP = 0, ffx_q = [],
          ffx_inBytes = 0, ffx_outBytes = 0,
          ffx_aes = \<lambda>blk. blk * 11400714819323198485 + 1\<rparr>"

lemma build_q_Nil: "build_q [] = [0, 0, 0, 0, 0, 0, 0, 1, 0, 0, 0, 0, 0, 0, 0, 0]"
proof -
  have a: "replicate 8 (0::byte) = [0, 0, 0, 0, 0, 0, 0, 0]" by (simp add: numeral_eq_Suc)
  have b: "pad_q [] = [0, 0, 0, 0, 0, 0, 0]" by (simp add: pad_q.simps)
  show ?thesis unfolding build_q_def a b by simp
qed

lemma NewFFX_mul_64: "NewFFX mul_prims [1] 64 = Inr mul_ffx"
  by (simp add: NewFFX_def mul_prims_def mul_ffx_def Let_def block_of_bytes_def be_nat_def)

lemma be_bytes_numeral:
  "be_bytes (numeral k) x = be_bytes (pred_numeral k) (x div 256) @ [of_nat x]"
  by (simp only: numeral_eq_Suc [of k] be_bytes.simps)

lemma feistel_numeral:
  "feistel (numeral k) F i a b = feistel (pred_numeral k) F (Suc i) b (a XOR F i b)"
  by (simp only: numeral_eq_Suc [of k] feistel.simps)

lemma mul_ffx_fields:
  "ffx_lengthBits mul_ffx = 64" "ffx_rounds mul_ffx = 12" "ffx_mask mul_ffx = 4294967295"
  "ffx_tweakLen mul_ffx = - 1"
  by (simp_all add: mul_ffx_def)

text \<open>The values of the round function on the path of the input 1.\<close>

lemma mul_F:
  "ffx_F (ffx_prep mul_ffx []) i 1 = 1"
  "ffx_F (ffx_prep mul_ffx []) i 0 = 2135587862"
  "ffx_F (ffx_prep mul_ffx []) i 2135587863 = 1301468623"
  "ffx_F (ffx_prep mul_ffx []) i 1301468623 = 2082951655"
  "ffx_F (ffx_prep mul_ffx []) i 57486832 = 14647494"
  "ffx_F (ffx_prep mul_ffx []) i 1296913673 = 1490540969"
  "ffx_F (ffx_prep mul_ffx []) i 1538978905 = 1579199289"
  "ffx_F (ffx_prep mul_ffx []) i 325975600 = 2823788038"
  "ffx_F (ffx_prep mul_ffx []) i 4092944991 = 4025653687"
  "ffx_F (ffx_prep mul_ffx []) i 4238305159 = 1442080255"
  "ffx_F (ffx_prep mul_ffx []) i 2785085344 = 827431990"
  by (simp_all add: ffx_F_def FFX_RoundFunc_def ffx_prep_def mul_ffx_def build_q_Nil
      put_uint64_lo_def Let_def cbc_mac.simps block_of_bytes_def be_nat_def uint64_lo_def
      be_bytes_numeral)

lemma mul_ffx_perm_1: "ffx_perm mul_ffx [] 1 = 11961850472501803953"
  by (simp add: ffx_perm_def Let_def Uint64_def feistel_numeral mul_F mul_ffx_fields)

lemma NewN_mul_2_64:
  "NewN mul_prims [1] (2 ^ 64) = Inr \<lparr>an_p = PermFFX mul_ffx, an_n = 2 ^ 64\<rparr>"
proof -
  have "BitLen (2 ^ 64 - 1) = 64" by (simp add: BitLen_def bit_len.simps)
  then show ?thesis by (simp add: NewN_def Let_def NewFFX_mul_64)
qed

lemma mul_adapter_PermuteInt_1:
  "returned (ArbitraryN_PermuteInt \<lparr>an_p = PermFFX mul_ffx, an_n = 2 ^ 64\<rparr> 1)
     = Some 11961850472501803953"
proof -
  have "ffx_coherent mul_ffx" by (simp add: ffx_coherent_def mul_ffx_fields)
  moreover have "ffx_lengthBits mul_ffx \<le> 128" by (simp add: mul_ffx_fields)
  ultimately obtain s' where "FFX_PermuteInPlace mul_ffx 1 [] = Inr (s', ffx_perm mul_ffx [] 1)"
    using FFX_PermuteInPlace_feistel [of mul_ffx 1 "[]"] by blast
  then have "Permutation_PermuteInPlace (PermFFX mul_ffx) 1 []
      = Inr (PermFFX s', 11961850472501803953)"
    by (simp add: mul_ffx_perm_1)
  then have "cycle_walk Permutation_PermuteInPlace (2 ^ 64) [] (PermFFX mul_ffx) 1
      = Some (Inr (PermFFX s', 11961850472501803953))"
    by (subst cycle_walk.simps) simp
  then show ?thesis
    by (simp add: ArbitraryN_PermuteInt_def ArbitraryN_PermuteInPlace_def Int64_def)
qed

text \<open>
  C1, as the specification states it, does not hold of \<open>PermuteInt\<close> on a range wider than a
  Go \<open>int\<close>.  \<open>NewN\<close> builds for \<open>N = 2 ^ 64\<close> the 64-bit AES-class engine; with the stand-in
  cipher above \<open>PermuteInPlace\<close> maps the input 1 to \<open>11961850472501803953\<close>, which lies in
  \<open>[0, N)\<close> and above \<open>2 ^ 63\<close>, and \<open>PermuteInt\<close> returns its \<open>Int64()\<close>, the negative number
  \<open>- 6484893601207747663\<close>.
\<close>

theorem PermuteInt_wraps_at_2_64:
  "\<not> isl (NewN mul_prims [1] (2 ^ 64)) \<and>
   0 \<le> sint (1 :: go_int) \<and> sint (1 :: go_int) < 2 ^ 64 \<and>
   returned (ArbitraryN_PermuteInt (projr (NewN mul_prims [1] (2 ^ 64))) 1)
     = Some 11961850472501803953 \<and>
   sint (11961850472501803953 :: go_int) = - 6484893601207747663"
proof (intro conjI)
  show "\<not> isl (NewN mul_prims [1] (2 ^ 64))" unfolding NewN_mul_2_64 by simp
  show "returned (ArbitraryN_PermuteInt (projr (NewN mul_prims [1] (2 ^ 64))) 1)
     = Some 11961850472501803953"
    by (simp only: NewN_mul_2_64 sum.sel mul_adapter_PermuteInt_1)
qed simp_all

section \<open>Failures of the permute operations\<close>

text \<open>The engines have no range check: none of their panics is the range error.\<close>

lemma cbc_mac_error: "cbc_mac enc inB outB q k = Inl e \<Longrightarrow> e = SliceBounds"
proof (induction enc inB outB q k rule: cbc_mac.induct)
  case (1 enc inB outB remainingQ iters)
  show ?case
  proof (cases "length remainingQ > 0 \<and> \<not> length remainingQ < 16")
    case True
    with "1.prems" have "cbc_mac enc (outB XOR block_of_bytes (take 16 remainingQ))
        (enc (outB XOR block_of_bytes (take 16 remainingQ))) (drop 16 remainingQ) (Suc iters) = Inl e"
      by (subst (asm) cbc_mac.simps) (simp add: Let_def)
    with True show ?thesis by (intro "1.IH" [OF _ _ refl refl refl refl]) simp_all
  next
    case False
    with "1.prems" show ?thesis by (subst (asm) cbc_mac.simps) (auto split: if_splits)
  qed
qed

lemma FFX_RoundFunc_error:
  "FFX_RoundFunc s i B = Inl e \<Longrightarrow> e = SliceBounds \<or> e = NegativeShift"
  by (auto simp: FFX_RoundFunc_def Let_def dest: cbc_mac_error
        split: if_splits sum.splits prod.splits)

lemma ffx_round_loop_error:
  "ffx_round_loop k s i a b = Inl e \<Longrightarrow> e = SliceBounds \<or> e = NegativeShift"
proof (induction k arbitrary: s i a b)
  case 0
  then show ?case by simp
next
  case (Suc k)
  show ?case
  proof (cases "FFX_RoundFunc s i b")
    case (Inl e')
    with Suc.prems have "e' = e" by simp
    with Inl show ?thesis by (auto dest: FFX_RoundFunc_error)
  next
    case (Inr r)
    obtain s' f where "r = (s', f)" by (cases r)
    with Inr Suc.prems have "ffx_round_loop k s' (Suc i) b (a XOR f) = Inl e" by (simp add: Let_def)
    then show ?thesis by (rule Suc.IH)
  qed
qed

lemma FFX_PermuteInPlace_error:
  "FFX_PermuteInPlace s x tw = Inl e \<Longrightarrow> e = SliceBounds \<or> e = NegativeShift"
  unfolding FFX_PermuteInPlace_def Let_def
  by (auto dest: ffx_round_loop_error split: sum.splits prod.splits)

lemma FS_RoundFunc_error: "FS_RoundFunc s i b tw = Inl e \<Longrightarrow> e = FillBytesOverflow"
  using FS_RoundFunc_unfold [of s i b tw] by (auto split: if_splits)

lemma fs_round_loop_error:
  "fs_round_loop k s tw i a b = Inl e \<Longrightarrow> e = FillBytesOverflow"
proof (induction k arbitrary: s i a b)
  case 0
  then show ?case by simp
next
  case (Suc k)
  show ?case
  proof (cases "FS_RoundFunc s i b tw")
    case (Inl e')
    with Suc.prems have "e' = e" by simp
    with Inl show ?thesis by (auto dest: FS_RoundFunc_error)
  next
    case (Inr r)
    obtain s' f where "r = (s', f)" by (cases r)
    with Inr Suc.prems have "fs_round_loop k s' tw (Suc i) b (a XOR f) = Inl e"
      by (simp add: Let_def)
    then show ?thesis by (rule Suc.IH)
  qed
qed

lemma FS_PermuteInPlace_error:
  "FS_PermuteInPlace s x tw = Inl e \<Longrightarrow> e = FillBytesOverflow"
  unfolding FS_PermuteInPlace_def Let_def
  by (auto dest: fs_round_loop_error split: sum.splits prod.splits)

lemma Permutation_PermuteInPlace_error:
  "Permutation_PermuteInPlace p x tw = Inl e \<Longrightarrow> e \<noteq> InputOutOfRange"
  by (cases p) (auto dest: FFX_PermuteInPlace_error FS_PermuteInPlace_error split: sum.splits)

text \<open>A panic of the cycle-walking loop is a panic of one of its calls of the engine.\<close>

lemma cycle_walk_error:
  fixes permute :: "'p \<Rightarrow> int \<Rightarrow> bytes \<Rightarrow> error + ('p \<times> int)"
  assumes w: "cycle_walk permute m tw p x = Some (Inl e)"
  shows "\<exists>p' x'. permute p' x' tw = Inl e"
proof -
  define P where "P = (\<lambda>(permute :: 'p \<Rightarrow> int \<Rightarrow> bytes \<Rightarrow> error + ('p \<times> int))
      (m :: int) (tw :: bytes) (p :: 'p) (x :: int) (r :: error + ('p \<times> int)).
      \<forall>e. r = Inl e \<longrightarrow> (\<exists>p' x'. permute p' x' tw = Inl e))"
  have "P permute m tw p x (Inl e)"
  proof (rule cycle_walk.raw_induct [where P = P])
    show "cycle_walk permute m tw p x = Some (Inl e)" by (rule w)
  next
    fix walk and permute :: "'p \<Rightarrow> int \<Rightarrow> bytes \<Rightarrow> error + ('p \<times> int)"
      and m :: int and tw :: bytes and p :: 'p and x :: int and r
    assume IH: "\<And>permute m tw p x r. walk permute m tw p x = Some r \<Longrightarrow> P permute m tw p x r"
      and eq: "(case permute p x tw of Inl e \<Rightarrow> Some (Inl e)
                | Inr (p', out) \<Rightarrow> if out < m then Some (Inr (p', out))
                                   else walk permute m tw p' out) = Some r"
    show "P permute m tw p x r"
    proof (cases "permute p x tw")
      case (Inl e')
      with eq have "r = Inl e'" by simp
      with Inl show ?thesis unfolding P_def by blast
    next
      case (Inr q)
      obtain p1 y1 where q: "q = (p1, y1)" by (cases q)
      show ?thesis
      proof (cases "y1 < m")
        case True
        with eq Inr q have "r = Inr (p1, y1)" by simp
        then show ?thesis unfolding P_def by simp
      next
        case False
        with eq Inr q have "walk permute m tw p1 y1 = Some r" by simp
        from IH [OF this] show ?thesis unfolding P_def by blast
      qed
    qed
  qed
  then show ?thesis unfolding P_def by blast
qed

lemma ArbitraryN_PermuteInPlace_range_error:
  "ArbitraryN_PermuteInPlace a x tw = Some (Inl InputOutOfRange) \<longleftrightarrow> an_n a \<le> x"
proof
  assume r: "ArbitraryN_PermuteInPlace a x tw = Some (Inl InputOutOfRange)"
  show "an_n a \<le> x"
  proof (rule ccontr)
    assume "\<not> an_n a \<le> x"
    with r have "cycle_walk Permutation_PermuteInPlace (an_n a) tw (an_p a) x
        = Some (Inl InputOutOfRange)"
      by (auto simp: ArbitraryN_PermuteInPlace_def split: option.splits sum.splits)
    then obtain p' x' where "Permutation_PermuteInPlace p' x' tw = Inl InputOutOfRange"
      by (auto dest: cycle_walk_error)
    then show False by (auto dest: Permutation_PermuteInPlace_error)
  qed
next
  assume "an_n a \<le> x"
  then show "ArbitraryN_PermuteInPlace a x tw = Some (Inl InputOutOfRange)"
    by (simp add: ArbitraryN_PermuteInPlace_def)
qed


text \<open>
  Objects for the examples: a fresh one of each kind, and the same object after one call with
  another input and another tweak.
\<close>

lemma ffx_sample:
  "\<exists>s0 s1 y. NewFFX pr key 8 = Inr s0 \<and> FFX_PermuteInPlace s0 7 [9] = Inr (s1, y) \<and>
     ffx_reachable pr key 8 s0 \<and> ffx_reachable pr key 8 s1"
proof -
  from NewFFX_ok [of 8 pr key] obtain s0 where s0: "NewFFX pr key 8 = Inr s0" by auto
  then have r0: "ffx_reachable pr key 8 s0" by (rule ffx_new)
  from ffx_reachable_permutes(3) [OF r0, of 7 "[9]"] obtain s1 y where
    c: "FFX_PermuteInPlace s0 7 [9] = Inr (s1, y)" by blast
  with r0 have "ffx_reachable pr key 8 s1" by (rule ffx_permute)
  with s0 c r0 show ?thesis by blast
qed

lemma fs_sample:
  "\<exists>t0 t1 y. NewPowerOf2 pr key 3 = Inr t0 \<and> FS_PermuteInPlace t0 5 [9] = Inr (t1, y) \<and>
     fs_reachable pr key 3 t0 \<and> fs_reachable pr key 3 t1"
proof -
  from NewPowerOf2_ok [of 3 pr key] obtain t0 where t0: "NewPowerOf2 pr key 3 = Inr t0" by auto
  then have r0: "fs_reachable pr key 3 t0" by (rule fs_new)
  have "take_bit (nat 3) (5::int) = 5" by simp
  from fs_reachable_permutes(3) [OF r0 this, of "[9]"] obtain t1 y where
    c: "FS_PermuteInPlace t0 5 [9] = Inr (t1, y)" by blast
  with r0 have "fs_reachable pr key 3 t1" by (rule fs_permute)
  with t0 c r0 show ?thesis by blast
qed

lemma an_sample:
  "\<exists>a0 a1 y. NewN pr key 5 = Inr a0 \<and> ArbitraryN_PermuteInPlace a0 4 [9] = Some (Inr (a1, y)) \<and>
     an_reachable pr key 5 a0 \<and> an_reachable pr key 5 a1"
proof -
  from NewN_total [of pr key 5] obtain a0 where a0: "NewN pr key 5 = Inr a0" by auto
  then have r0: "an_reachable pr key 5 a0" by (rule an_new)
  have "(0::int) \<le> 4" "(4::int) < 5" by simp_all
  from an_permute_value(1) [OF r0 this, of "[9]"] obtain a1 y where
    c: "ArbitraryN_PermuteInPlace a0 4 [9] = Some (Inr (a1, y))" by blast
  with r0 have "an_reachable pr key 5 a1" by (rule an_permute)
  with a0 c r0 show ?thesis by blast
qed

text \<open>
  C4, as the specification states it, does not hold of the engines: \<open>FFX.PermuteInPlace\<close> has
  no range check.  An AES-class engine of \<open>lengthBits = 8\<close> has the domain \<open>[0, 256)\<close>; called
  on \<open>256\<close> it does not panic, it returns a value.
\<close>

theorem FFX_PermuteInPlace_accepts_256:
  "\<not> isl (NewFFX toy_prims [1] 8) \<and> \<not> (256::int) < 2 ^ 8 \<and>
   \<not> isl (FFX_PermuteInPlace (projr (NewFFX toy_prims [1] 8)) 256 [])"
proof -
  from NewFFX_ok [of 8 toy_prims "[1]"] obtain s where s: "NewFFX toy_prims [1] 8 = Inr s"
    by auto
  then have "ffx_reachable toy_prims [1] 8 s" by (rule ffx_new)
  from ffx_reachable_permutes(3) [OF this, of 256 "[]"] obtain s' where
    "FFX_PermuteInPlace s 256 [] = Inr (s', ffx_perm s [] 256)" by blast
  with s show ?thesis by simp
qed

text \<open>
  C4, amended.  On an input \<open>\<ge> 0\<close> the range adapter panics with the range error exactly
  when the input lies outside \<open>[0, N)\<close>, and the call then returns no value; on an input of
  \<open>[0, N)\<close> it raises no error and returns one.  The same holds of \<open>PermuteInt\<close>.  The
  engines have no range check and never raise the range error: the AES-class engine returns
  a value on every integer, in and out of its domain, and the XOF-class engine returns a
  value on every input of its domain \<open>[0, 2 ^ lengthBits)\<close>.
\<close>

theorem range_error_only_from_adapter:
  "(an_reachable pr key n a \<and> 0 \<le> x \<longrightarrow>
      (ArbitraryN_PermuteInPlace a x tw = Some (Inl InputOutOfRange)
         \<longleftrightarrow> \<not> (0 \<le> x \<and> x < n)) \<and>
      (0 \<le> x \<and> x < n \<longrightarrow> (\<exists>a' y. ArbitraryN_PermuteInPlace a x tw = Some (Inr (a', y))))) \<and>
   (an_reachable pr key n a \<and> 0 \<le> sint i \<longrightarrow>
      (ArbitraryN_PermuteInt a i = Some (Inl InputOutOfRange)
         \<longleftrightarrow> \<not> (0 \<le> sint i \<and> sint i < n)) \<and>
      (0 \<le> sint i \<and> sint i < n \<longrightarrow> (\<exists>a' r. ArbitraryN_PermuteInt a i = Some (Inr (a', r))))) \<and>
   FFX_PermuteInPlace s x tw \<noteq> Inl InputOutOfRange \<and>
   FS_PermuteInPlace t x tw \<noteq> Inl InputOutOfRange \<and>
   (ffx_reachable pr key l s \<longrightarrow> (\<exists>s' y. FFX_PermuteInPlace s x tw = Inr (s', y))) \<and>
   (fs_reachable pr key l t \<and> 0 \<le> x \<and> x < 2 ^ nat l \<longrightarrow>
      (\<exists>t' y. FS_PermuteInPlace t x tw = Inr (t', y)))"
proof (intro conjI impI)
  assume "an_reachable pr key n a \<and> 0 \<le> x"
  then have r: "an_reachable pr key n a" and x: "0 \<le> x" by simp_all
  from r have n: "an_n a = n" by (simp add: an_reachable_inv)
  from x show "ArbitraryN_PermuteInPlace a x tw = Some (Inl InputOutOfRange)
      \<longleftrightarrow> \<not> (0 \<le> x \<and> x < n)"
    by (simp add: ArbitraryN_PermuteInPlace_range_error n not_less)
next
  assume "an_reachable pr key n a \<and> 0 \<le> x" and "0 \<le> x \<and> x < n"
  then have r: "an_reachable pr key n a" and x: "0 \<le> x" "x < n" by simp_all
  from an_permute_value(1) [OF r x, of tw]
  show "\<exists>a' y. ArbitraryN_PermuteInPlace a x tw = Some (Inr (a', y))" by blast
next
  assume "an_reachable pr key n a \<and> 0 \<le> sint i"
  then have r: "an_reachable pr key n a" and i: "0 \<le> sint i" by simp_all
  from r have n: "an_n a = n" by (simp add: an_reachable_inv)
  have "ArbitraryN_PermuteInt a i = Some (Inl InputOutOfRange)
      \<longleftrightarrow> ArbitraryN_PermuteInPlace a (sint i) [] = Some (Inl InputOutOfRange)"
    by (auto simp: ArbitraryN_PermuteInt_def split: option.splits sum.splits)
  with i show "ArbitraryN_PermuteInt a i = Some (Inl InputOutOfRange)
      \<longleftrightarrow> \<not> (0 \<le> sint i \<and> sint i < n)"
    by (simp add: ArbitraryN_PermuteInPlace_range_error n not_less)
next
  assume "an_reachable pr key n a \<and> 0 \<le> sint i" and "0 \<le> sint i \<and> sint i < n"
  then have r: "an_reachable pr key n a" and i: "0 \<le> sint i" "sint i < n" by simp_all
  from an_permute_value(1) [OF r i, of "[]"]
  show "\<exists>a' r. ArbitraryN_PermuteInt a i = Some (Inr (a', r))"
    by (auto simp: ArbitraryN_PermuteInt_def)
next
  show "FFX_PermuteInPlace s x tw \<noteq> Inl InputOutOfRange"
    by (auto dest: FFX_PermuteInPlace_error)
  show "FS_PermuteInPlace t x tw \<noteq> Inl InputOutOfRange"
    by (auto dest: FS_PermuteInPlace_error)
next
  assume "ffx_reachable pr key l s"
  from ffx_reachable_permutes(3) [OF this, of x tw]
  show "\<exists>s' y. FFX_PermuteInPlace s x tw = Inr (s', y)" by blast
next
  assume "fs_reachable pr key l t \<and> 0 \<le> x \<and> x < 2 ^ nat l"
  then have r: "fs_reachable pr key l t" and "take_bit (nat l) x = x"
    by (simp_all add: take_bit_int_eq_self_iff)
  from fs_reachable_permutes(3) [OF this, of tw]
  show "\<exists>t' y. FS_PermuteInPlace t x tw = Inr (t', y)" by blast
qed

theorem range_error_only_from_adapter_witness:
  "\<exists>a s t. NewN toy_prims [1] 5 = Inr a \<and> NewFFX toy_prims [1] 8 = Inr s \<and>
     NewPowerOf2 toy_prims [1] 3 = Inr t \<and>
     ArbitraryN_PermuteInPlace a 7 [] = Some (Inl InputOutOfRange) \<and>
     (\<exists>a' y. ArbitraryN_PermuteInPlace a 2 [] = Some (Inr (a', y))) \<and>
     ArbitraryN_PermuteInt a 7 = Some (Inl InputOutOfRange) \<and>
     (\<exists>a' r. ArbitraryN_PermuteInt a 2 = Some (Inr (a', r))) \<and>
     (\<exists>s' y. FFX_PermuteInPlace s 300 [] = Inr (s', y)) \<and>
     (\<exists>t' y. FS_PermuteInPlace t 6 [] = Inr (t', y))"
proof -
  from an_sample [of toy_prims "[1]"] obtain a where
    a: "NewN toy_prims [1] 5 = Inr a" and ra: "an_reachable toy_prims [1] 5 a" by blast
  from ffx_sample [of toy_prims "[1]"] obtain s where
    s: "NewFFX toy_prims [1] 8 = Inr s" and rs: "ffx_reachable toy_prims [1] 8 s" by blast
  from fs_sample [of toy_prims "[1]"] obtain t where
    t: "NewPowerOf2 toy_prims [1] 3 = Inr t" and rt: "fs_reachable toy_prims [1] 3 t" by blast
  note th = range_error_only_from_adapter
      [where a = a and pr = toy_prims and key = "[1]" and n = 5 and tw = "[]"]
  have x7: "an_reachable toy_prims [1] 5 a \<and> (0::int) \<le> 7"
    and x2: "an_reachable toy_prims [1] 5 a \<and> (0::int) \<le> 2"
    and i7: "an_reachable toy_prims [1] 5 a \<and> 0 \<le> sint (7 :: go_int)"
    and i2: "an_reachable toy_prims [1] 5 a \<and> 0 \<le> sint (2 :: go_int)"
    using ra by simp_all
  have out7: "\<not> ((0::int) \<le> 7 \<and> (7::int) < 5)"
    and outi7: "\<not> (0 \<le> sint (7 :: go_int) \<and> sint (7 :: go_int) < 5)" by simp_all
  have in2: "(0::int) \<le> 2 \<and> (2::int) < 5"
    and ini2: "0 \<le> sint (2 :: go_int) \<and> sint (2 :: go_int) < 5" by simp_all
  note c1 = th [where x = 7, THEN conjunct1, THEN mp, OF x7, THEN conjunct1, THEN iffD2, OF out7]
  note c2 = th [where x = 2, THEN conjunct1, THEN mp, OF x2, THEN conjunct2, THEN mp, OF in2]
  note c3 = th [where i = 7, THEN conjunct2, THEN conjunct1, THEN mp, OF i7, THEN conjunct1,
      THEN iffD2, OF outi7]
  note c4 = th [where i = 2, THEN conjunct2, THEN conjunct1, THEN mp, OF i2, THEN conjunct2,
      THEN mp, OF ini2]
  note c5 = th [where x = 300 and s = s and l = 8, THEN conjunct2, THEN conjunct2,
      THEN conjunct2, THEN conjunct2, THEN conjunct1, THEN mp, OF rs]
  have six: "fs_reachable toy_prims [1] 3 t \<and> (0::int) \<le> 6 \<and> (6::int) < 2 ^ nat 3"
    using rt by simp
  note c6 = th [where x = 6 and t = t and l = 3, THEN conjunct2, THEN conjunct2,
      THEN conjunct2, THEN conjunct2, THEN conjunct2, THEN mp, OF six]
  show ?thesis
  proof (rule exI [of _ a], rule exI [of _ s], rule exI [of _ t], intro conjI)
    show "NewN toy_prims [1] 5 = Inr a" by (rule a)
    show "NewFFX toy_prims [1] 8 = Inr s" by (rule s)
    show "NewPowerOf2 toy_prims [1] 3 = Inr t" by (rule t)
  qed (rule c1 c2 c3 c4 c5 c6)+
qed

section \<open>Determinism\<close>

lemma ffx_reachable_deterministic:
  assumes "ffx_reachable pr key l s" and "ffx_reachable pr key l s'"
  shows "\<exists>s1 s1' y. FFX_PermuteInPlace s x tw = Inr (s1, y) \<and>
           FFX_PermuteInPlace s' x tw = Inr (s1', y)"
proof -
  from assms(1) obtain s0 where s0: "NewFFX pr key l = Inr s0"
    by (auto dest: ffx_reachable_new)
  from ffx_reachable_inv [OF assms(1) s0] ffx_reachable_inv [OF assms(2) s0]
  have "ffx_static s s'" by (blast intro: ffx_static_trans ffx_static_sym)
  then have "ffx_perm s' tw x = ffx_perm s tw x" by (rule ffx_perm_static)
  with ffx_reachable_permutes(3) [OF assms(1), of x tw]
    ffx_reachable_permutes(3) [OF assms(2), of x tw]
  show ?thesis by auto
qed

lemma fs_reachable_deterministic:
  assumes "fs_reachable pr key l t" and "fs_reachable pr key l t'"
    and x: "0 \<le> x" "x < 2 ^ nat l"
  shows "\<exists>t1 t1' y. FS_PermuteInPlace t x tw = Inr (t1, y) \<and>
           FS_PermuteInPlace t' x tw = Inr (t1', y)"
proof -
  from x have fits: "take_bit (nat l) x = x" by (simp add: take_bit_int_eq_self_iff)
  from assms(1) obtain t0 where t0: "NewPowerOf2 pr key l = Inr t0"
    by (auto dest: fs_reachable_new)
  from fs_reachable_inv [OF assms(1) t0] fs_reachable_inv [OF assms(2) t0]
  have "fs_perm t tw x = fs_perm t0 tw x" and "fs_perm t' tw x = fs_perm t0 tw x"
    by (simp_all add: fs_perm_same)
  with fs_reachable_permutes(3) [OF assms(1) fits, of tw]
    fs_reachable_permutes(3) [OF assms(2) fits, of tw]
  show ?thesis by auto
qed

lemma an_reachable_deterministic:
  assumes "an_reachable pr key n a" and "an_reachable pr key n a'"
    and x: "0 \<le> x" "x < n"
  shows "\<exists>a1 a1' y. ArbitraryN_PermuteInPlace a x tw = Some (Inr (a1, y)) \<and>
           ArbitraryN_PermuteInPlace a' x tw = Some (Inr (a1', y))"
proof -
  from an_reachable_inv [OF assms(1)] an_reachable_inv [OF assms(2)]
  have "engine_of pr key n (an_p a)" and "engine_of pr key n (an_p a')" by simp_all
  then have "perm_pure (an_p a') tw = perm_pure (an_p a) tw" by (rule engine_of_pure_eq)
  with an_permute_value(1) [OF assms(1) x, of tw] an_permute_value(1) [OF assms(2) x, of tw]
  show ?thesis by auto
qed

text \<open>
  C5. The permute operations are deterministic.  Two engine objects, or two range adapters,
  that calls have brought from the constructor with the same key and the same domain into
  any two states (two fresh objects; one object before and after calls with other inputs
  and tweaks, in any order) return on the same in-domain input and the same tweak the
  same value, and they do return one.  The same holds of \<open>PermuteInt\<close>.
\<close>

theorem permute_is_deterministic:
  "(ffx_reachable pr key l s \<and> ffx_reachable pr key l s' \<longrightarrow>
      (\<exists>y. permuted (FFX_PermuteInPlace s x tw) = Some y \<and>
            permuted (FFX_PermuteInPlace s' x tw) = Some y) \<and>
      (\<exists>r. permuted (FFX_PermuteInt s i) = Some r \<and> permuted (FFX_PermuteInt s' i) = Some r)) \<and>
   (fs_reachable pr key l t \<and> fs_reachable pr key l t' \<longrightarrow>
      (0 \<le> x \<and> x < 2 ^ nat l \<longrightarrow>
        (\<exists>y. permuted (FS_PermuteInPlace t x tw) = Some y \<and>
              permuted (FS_PermuteInPlace t' x tw) = Some y)) \<and>
      (0 \<le> sint i \<and> sint i < 2 ^ nat l \<longrightarrow>
        (\<exists>r. permuted (FS_PermuteInt t i) = Some r \<and> permuted (FS_PermuteInt t' i) = Some r))) \<and>
   (an_reachable pr key n a \<and> an_reachable pr key n a' \<longrightarrow>
      (0 \<le> x \<and> x < n \<longrightarrow>
        (\<exists>y. returned (ArbitraryN_PermuteInPlace a x tw) = Some y \<and>
              returned (ArbitraryN_PermuteInPlace a' x tw) = Some y)) \<and>
      (0 \<le> sint i \<and> sint i < n \<longrightarrow>
        (\<exists>r. returned (ArbitraryN_PermuteInt a i) = Some r \<and>
              returned (ArbitraryN_PermuteInt a' i) = Some r)))"
proof (intro conjI impI)
  assume "ffx_reachable pr key l s \<and> ffx_reachable pr key l s'"
  then have r: "ffx_reachable pr key l s" "ffx_reachable pr key l s'" by simp_all
  from ffx_reachable_deterministic [OF r, of x tw]
  show "\<exists>y. permuted (FFX_PermuteInPlace s x tw) = Some y \<and>
            permuted (FFX_PermuteInPlace s' x tw) = Some y" by auto
  from ffx_reachable_deterministic [OF r, of "sint i" "[]"]
  show "\<exists>r. permuted (FFX_PermuteInt s i) = Some r \<and> permuted (FFX_PermuteInt s' i) = Some r"
    by (auto simp: FFX_PermuteInt_def)
next
  assume "fs_reachable pr key l t \<and> fs_reachable pr key l t'" and "0 \<le> x \<and> x < 2 ^ nat l"
  then have r: "fs_reachable pr key l t" "fs_reachable pr key l t'"
    and x: "0 \<le> x" "x < 2 ^ nat l" by simp_all
  from fs_reachable_deterministic [OF r x, of tw]
  show "\<exists>y. permuted (FS_PermuteInPlace t x tw) = Some y \<and>
            permuted (FS_PermuteInPlace t' x tw) = Some y" by auto
next
  assume "fs_reachable pr key l t \<and> fs_reachable pr key l t'"
    and "0 \<le> sint i \<and> sint i < 2 ^ nat l"
  then have r: "fs_reachable pr key l t" "fs_reachable pr key l t'"
    and x: "0 \<le> sint i" "sint i < 2 ^ nat l" by simp_all
  from fs_reachable_deterministic [OF r x, of "[]"]
  show "\<exists>r. permuted (FS_PermuteInt t i) = Some r \<and> permuted (FS_PermuteInt t' i) = Some r"
    by (auto simp: FS_PermuteInt_def)
next
  assume "an_reachable pr key n a \<and> an_reachable pr key n a'" and "0 \<le> x \<and> x < n"
  then have r: "an_reachable pr key n a" "an_reachable pr key n a'"
    and x: "0 \<le> x" "x < n" by simp_all
  from an_reachable_deterministic [OF r x, of tw]
  show "\<exists>y. returned (ArbitraryN_PermuteInPlace a x tw) = Some y \<and>
            returned (ArbitraryN_PermuteInPlace a' x tw) = Some y" by auto
next
  assume "an_reachable pr key n a \<and> an_reachable pr key n a'" and "0 \<le> sint i \<and> sint i < n"
  then have r: "an_reachable pr key n a" "an_reachable pr key n a'"
    and x: "0 \<le> sint i" "sint i < n" by simp_all
  from an_reachable_deterministic [OF r x, of "[]"]
  show "\<exists>r. returned (ArbitraryN_PermuteInt a i) = Some r \<and>
            returned (ArbitraryN_PermuteInt a' i) = Some r"
    by (auto simp: ArbitraryN_PermuteInt_def)
qed

theorem permute_is_deterministic_witness:
  "\<exists>s0 s1 t0 t1 a0 a1.
     NewFFX toy_prims [1] 8 = Inr s0 \<and> permuted (FFX_PermuteInPlace s0 7 [9]) \<noteq> None \<and>
     ffx_reachable toy_prims [1] 8 s1 \<and>
     NewPowerOf2 toy_prims [1] 3 = Inr t0 \<and> fs_reachable toy_prims [1] 3 t1 \<and>
     NewN toy_prims [1] 5 = Inr a0 \<and> an_reachable toy_prims [1] 5 a1 \<and>
     (\<exists>y. permuted (FFX_PermuteInPlace s0 3 [4]) = Some y \<and>
           permuted (FFX_PermuteInPlace s1 3 [4]) = Some y) \<and>
     (\<exists>y. permuted (FS_PermuteInPlace t0 3 [4]) = Some y \<and>
           permuted (FS_PermuteInPlace t1 3 [4]) = Some y) \<and>
     (\<exists>y. returned (ArbitraryN_PermuteInPlace a0 3 [4]) = Some y \<and>
           returned (ArbitraryN_PermuteInPlace a1 3 [4]) = Some y) \<and>
     (\<exists>r. permuted (FS_PermuteInt t0 3) = Some r \<and> permuted (FS_PermuteInt t1 3) = Some r) \<and>
     (\<exists>r. returned (ArbitraryN_PermuteInt a0 3) = Some r \<and>
           returned (ArbitraryN_PermuteInt a1 3) = Some r)"
proof -
  from ffx_sample [of toy_prims "[1]"] obtain s0 s1 y where
    s: "NewFFX toy_prims [1] 8 = Inr s0" "FFX_PermuteInPlace s0 7 [9] = Inr (s1, y)"
    and rs: "ffx_reachable toy_prims [1] 8 s0" "ffx_reachable toy_prims [1] 8 s1" by blast
  from fs_sample [of toy_prims "[1]"] obtain t0 t1 where
    t: "NewPowerOf2 toy_prims [1] 3 = Inr t0"
    and rt: "fs_reachable toy_prims [1] 3 t0" "fs_reachable toy_prims [1] 3 t1" by blast
  from an_sample [of toy_prims "[1]"] obtain a0 a1 where
    a: "NewN toy_prims [1] 5 = Inr a0"
    and ra: "an_reachable toy_prims [1] 5 a0" "an_reachable toy_prims [1] 5 a1" by blast
  note th = permute_is_deterministic [where pr = toy_prims and key = "[1]" and x = 3
      and tw = "[4]" and s = s0 and s' = s1 and t = t0 and t' = t1 and a = a0 and a' = a1]
  have x3: "(0::int) \<le> 3 \<and> (3::int) < 2 ^ nat 3" and x5: "(0::int) \<le> 3 \<and> (3::int) < 5"
    by simp_all
  note c1 = th [where l = 8, THEN conjunct1, THEN mp, OF conjI [OF rs], THEN conjunct1]
  note c2 = th [where l = 3, THEN conjunct2, THEN conjunct1, THEN mp, OF conjI [OF rt],
      THEN conjunct1, THEN mp, OF x3]
  note c3 = th [where n = 5, THEN conjunct2, THEN conjunct2, THEN mp, OF conjI [OF ra],
      THEN conjunct1, THEN mp, OF x5]
  have i3: "0 \<le> sint (3 :: go_int) \<and> sint (3 :: go_int) < 2 ^ nat 3"
    and i5: "0 \<le> sint (3 :: go_int) \<and> sint (3 :: go_int) < 5" by simp_all
  note c4 = th [where l = 3 and i = 3, THEN conjunct2, THEN conjunct1, THEN mp,
      OF conjI [OF rt], THEN conjunct2, THEN mp, OF i3]
  note c5 = th [where n = 5 and i = 3, THEN conjunct2, THEN conjunct2, THEN mp,
      OF conjI [OF ra], THEN conjunct2, THEN mp, OF i5]
  have c0: "permuted (FFX_PermuteInPlace s0 7 [9]) \<noteq> None" by (simp add: s(2))
  show ?thesis
  proof (rule exI [of _ s0], rule exI [of _ s1], rule exI [of _ t0], rule exI [of _ t1],
      rule exI [of _ a0], rule exI [of _ a1], intro conjI)
    show "NewFFX toy_prims [1] 8 = Inr s0" by (rule s)
    show "NewPowerOf2 toy_prims [1] 3 = Inr t0" by (rule t)
    show "NewN toy_prims [1] 5 = Inr a0" by (rule a)
  qed (rule c0 c1 c2 c3 c4 c5 rs rt ra)+
qed

section \<open>The halves of an odd width\<close>

lemma odd_halves:
  assumes "odd l" and "0 \<le> l"
  shows "nat l - nat l div 2 = nat l div 2 + 1" and "nat l div 2 + (nat l div 2 + 1) = nat l"
proof -
  from assms have "odd (nat l)" by (simp add: even_nat_iff)
  then obtain k where "nat l = 2 * k + 1" by (auto elim: oddE)
  then show "nat l - nat l div 2 = nat l div 2 + 1" and "nat l div 2 + (nat l div 2 + 1) = nat l"
    by simp_all
qed

lemma high_half_bound:
  assumes "0 \<le> (x::int)" and "x < 2 ^ (k + m)"
  shows "0 \<le> drop_bit m x" and "drop_bit m x < 2 ^ k"
proof -
  from assms have "take_bit (k + m) x = x" by (simp add: fits_iff)
  then have "take_bit k (drop_bit m x) = drop_bit m x" by (rule split_fits)
  then show "0 \<le> drop_bit m x" and "drop_bit m x < 2 ^ k" by (simp_all only: fits_iff)
qed

lemma FFX_PermuteInPlace_split:
  assumes r: "ffx_reachable pr key l s"
  shows "FFX_PermuteInPlace s x tw =
      (case ffx_round_loop (ffx_rounds s)
              ((calculateEncryptedP s (nat l div 2) (int (length tw)))\<lparr>ffx_q := build_q tw\<rparr>) 0
              (Uint64 (drop_bit (nat l - nat l div 2) x))
              (Uint64 (take_bit (nat l - nat l div 2) x)) of
         Inl e \<Rightarrow> Inl e
       | Inr (s3, a', b') \<Rightarrow> Inr (s3, push_bit (nat l - nat l div 2) (uint a') OR uint b'))"
proof -
  from ffx_reachable_permutes(1,2) [OF r]
  have L: "ffx_lengthBits s = nat l"
    and m: "ffx_mask s = push_bit (nat l - nat l div 2) 1 - 1"
    by (simp_all add: ffx_wf_def)
  have "ffx_rounds (calculateEncryptedP s (nat l div 2) (int (length tw))\<lparr>ffx_q := build_q tw\<rparr>)
      = ffx_rounds s"
    by (simp add: calculateEncryptedP_def Let_def)
  then show ?thesis
    unfolding FFX_PermuteInPlace_def Let_def L m and_low_mask by (simp only:)
qed

lemma FS_PermuteInPlace_split:
  assumes r: "fs_reachable pr key l t"
  shows "FS_PermuteInPlace t x tw =
      (case fs_round_loop (fs_rounds t) t tw 0
              (drop_bit (nat l div 2) x) (take_bit (nat l div 2) x) of
         Inl e \<Rightarrow> Inl e
       | Inr (t', a', b') \<Rightarrow> Inr (t', push_bit (nat l div 2) a' OR b'))"
proof -
  from fs_reachable_permutes(1) [OF r] have L: "fs_lengthBits t = nat l" .
  show ?thesis unfolding FS_PermuteInPlace_def Let_def L and_low_mask by (rule refl)
qed


lemma FFX_RoundFunc_width:
  assumes "FFX_RoundFunc s i B = Inr (s', f)"
  shows "uint f < 2 ^ ffx_width (ffx_lengthBits s) i"
proof -
  from assms have "ffx_F s i B = f" by (simp add: ffx_F_def)
  with ffx_F_fits [of s i B] have "take_bit (ffx_width (ffx_lengthBits s) i) f = f" by simp
  then have "take_bit (ffx_width (ffx_lengthBits s) i) (uint f) = uint f"
    by (simp only: uint_fits)
  then show ?thesis by (simp only: fits_iff)
qed

lemma FS_RoundFunc_width:
  assumes "FS_RoundFunc s i b tw = Inr (s', f)"
  shows "0 \<le> f" and "f < 2 ^ fs_width (fs_lengthBits s) i"
proof -
  from assms have "fs_F s tw i b = f" by (simp add: fs_F_def)
  with fs_F_fits [of s i tw b] have "take_bit (fs_width (fs_lengthBits s) i) f = f" by simp
  then show "0 \<le> f" and "f < 2 ^ fs_width (fs_lengthBits s) i" by (simp_all only: fits_iff)
qed

lemma ffx_odd_halves:
  assumes odd: "odd l" and r: "ffx_reachable pr key l s"
  shows "nat l - nat l div 2 = nat l div 2 + 1"
    and "nat l div 2 + (nat l div 2 + 1) = nat l"
    and "nat l div 2 + 1 \<le> 64"
proof -
  from r obtain s0 where "NewFFX pr key l = Inr s0" by (auto dest: ffx_reachable_new)
  from NewFFX_Inr(1,2) [OF this] have l: "8 \<le> l" "l \<le> 128" .
  then have l0: "0 \<le> l" by simp
  from odd_halves [OF odd l0]
  show "nat l - nat l div 2 = nat l div 2 + 1" and "nat l div 2 + (nat l div 2 + 1) = nat l" .
  from l odd have "l \<noteq> 128" by auto
  with l have "l \<le> 127" by simp
  then show "nat l div 2 + 1 \<le> 64" by linarith
qed

lemma ffx_odd_input:
  assumes odd: "odd l" and r: "ffx_reachable pr key l s" and x: "0 \<le> x" "x < 2 ^ nat l"
  shows "uint (Uint64 (drop_bit (nat l div 2 + 1) x)) = drop_bit (nat l div 2 + 1) x"
    and "drop_bit (nat l div 2 + 1) x < 2 ^ (nat l div 2)"
    and "uint (Uint64 (take_bit (nat l div 2 + 1) x)) = take_bit (nat l div 2 + 1) x"
proof -
  note h = ffx_odd_halves [OF odd r]
  from x have x': "x < 2 ^ (nat l div 2 + (nat l div 2 + 1))" by (simp only: h(2))
  from x(1) x' have "take_bit (nat l div 2 + (nat l div 2 + 1)) x = x" by (simp only: fits_iff)
  then have a: "take_bit (nat l div 2) (drop_bit (nat l div 2 + 1) x)
      = drop_bit (nat l div 2 + 1) x" by (rule split_fits)
  then show "drop_bit (nat l div 2 + 1) x < 2 ^ (nat l div 2)" by (simp only: fits_iff)
  have "nat l div 2 \<le> 64" using h(3) by simp
  with a show "uint (Uint64 (drop_bit (nat l div 2 + 1) x)) = drop_bit (nat l div 2 + 1) x"
    by (rule uint_Uint64)
  have "take_bit (nat l div 2 + 1) (take_bit (nat l div 2 + 1) x) = take_bit (nat l div 2 + 1) x"
    by simp
  then show "uint (Uint64 (take_bit (nat l div 2 + 1) x)) = take_bit (nat l div 2 + 1) x"
    using h(3) by (rule uint_Uint64)
qed

lemma fs_odd_halves:
  assumes odd: "odd l" and r: "fs_reachable pr key l t"
  shows "nat l - nat l div 2 = nat l div 2 + 1"
    and "nat l div 2 + (nat l div 2 + 1) = nat l"
proof -
  from r obtain t0 where "NewPowerOf2 pr key l = Inr t0" by (auto dest: fs_reachable_new)
  from NewPowerOf2_Inr(1) [OF this] have l0: "0 \<le> l" by simp
  from odd_halves [OF odd l0]
  show "nat l - nat l div 2 = nat l div 2 + 1" and "nat l div 2 + (nat l div 2 + 1) = nat l" .
qed

lemma fs_odd_input:
  fixes x :: int
  assumes odd: "odd l" and r: "fs_reachable pr key l t" and x: "0 \<le> x" "x < 2 ^ nat l"
  shows "0 \<le> drop_bit (nat l div 2) x" and "drop_bit (nat l div 2) x < 2 ^ (nat l div 2 + 1)"
proof -
  note h = fs_odd_halves [OF odd r]
  have "nat l div 2 + 1 + nat l div 2 = nat l" using h(2) by simp
  with x have x': "x < (2::int) ^ (nat l div 2 + 1 + nat l div 2)" by (simp only:)
  from high_half_bound [OF x(1) x']
  show "0 \<le> drop_bit (nat l div 2) x" and "drop_bit (nat l div 2) x < 2 ^ (nat l div 2 + 1)" .
qed

text \<open>
  C8. Let \<open>lengthBits\<close> be odd, so that \<open>floor (lengthBits / 2) = lengthBits div 2\<close> and
  \<open>ceil (lengthBits / 2) = lengthBits div 2 + 1\<close>.  The AES-class engine starts its rounds on
  the low-order \<open>ceil\<close> bits of the input as the half \<open>B\<close> and the remaining high-order bits
  as the half \<open>A\<close>, which on an input of the domain are \<open>floor\<close> bits, and joins its result
  the same way; its round function returns \<open>floor\<close> bits in the even rounds and \<open>ceil\<close>
  bits in the odd ones.  The XOF-class engine starts on the low-order \<open>floor\<close> bits as \<open>B\<close>
  and the high-order bits, \<open>ceil\<close> of them, as \<open>A\<close>; its round function returns \<open>ceil\<close>
  bits in the even rounds and \<open>floor\<close> bits in the odd ones.
\<close>

theorem odd_width_halves:
  assumes "odd l"
  shows
    "(ffx_reachable pr key l s \<longrightarrow>
        nat l div 2 + (nat l div 2 + 1) = nat l \<and>
        FFX_PermuteInPlace s x tw =
          (case ffx_round_loop (ffx_rounds s)
                  ((calculateEncryptedP s (nat l div 2) (int (length tw)))\<lparr>ffx_q := build_q tw\<rparr>) 0
                  (Uint64 (drop_bit (nat l div 2 + 1) x))
                  (Uint64 (take_bit (nat l div 2 + 1) x)) of
             Inl e \<Rightarrow> Inl e
           | Inr (s3, a', b') \<Rightarrow> Inr (s3, push_bit (nat l div 2 + 1) (uint a') OR uint b')) \<and>
        (0 \<le> x \<and> x < 2 ^ nat l \<longrightarrow>
           uint (Uint64 (drop_bit (nat l div 2 + 1) x)) = drop_bit (nat l div 2 + 1) x \<and>
           drop_bit (nat l div 2 + 1) x < 2 ^ (nat l div 2) \<and>
           uint (Uint64 (take_bit (nat l div 2 + 1) x)) = take_bit (nat l div 2 + 1) x \<and>
           take_bit (nat l div 2 + 1) x < 2 ^ (nat l div 2 + 1)) \<and>
        (\<forall>i B s' f. FFX_RoundFunc s i B = Inr (s', f) \<longrightarrow>
           uint f < 2 ^ (if even i then nat l div 2 else nat l div 2 + 1))) \<and>
     (fs_reachable pr key l t \<longrightarrow>
        nat l div 2 + (nat l div 2 + 1) = nat l \<and>
        FS_PermuteInPlace t x tw =
          (case fs_round_loop (fs_rounds t) t tw 0
                  (drop_bit (nat l div 2) x) (take_bit (nat l div 2) x) of
             Inl e \<Rightarrow> Inl e
           | Inr (t', a', b') \<Rightarrow> Inr (t', push_bit (nat l div 2) a' OR b')) \<and>
        (0 \<le> x \<and> x < 2 ^ nat l \<longrightarrow>
           0 \<le> drop_bit (nat l div 2) x \<and> drop_bit (nat l div 2) x < 2 ^ (nat l div 2 + 1) \<and>
           0 \<le> take_bit (nat l div 2) x \<and> take_bit (nat l div 2) x < 2 ^ (nat l div 2)) \<and>
        (\<forall>i b t' f. FS_RoundFunc t i b tw = Inr (t', f) \<longrightarrow>
           0 \<le> f \<and> f < 2 ^ (if even i then nat l div 2 + 1 else nat l div 2)))"
proof (intro conjI impI allI)
  assume r: "ffx_reachable pr key l s"
  show "nat l div 2 + (nat l div 2 + 1) = nat l" by (rule ffx_odd_halves(2) [OF assms r])
next
  assume r: "ffx_reachable pr key l s"
  show "FFX_PermuteInPlace s x tw =
          (case ffx_round_loop (ffx_rounds s)
                  ((calculateEncryptedP s (nat l div 2) (int (length tw)))\<lparr>ffx_q := build_q tw\<rparr>) 0
                  (Uint64 (drop_bit (nat l div 2 + 1) x))
                  (Uint64 (take_bit (nat l div 2 + 1) x)) of
             Inl e \<Rightarrow> Inl e
           | Inr (s3, a', b') \<Rightarrow> Inr (s3, push_bit (nat l div 2 + 1) (uint a') OR uint b'))"
    using FFX_PermuteInPlace_split [OF r, of x tw]
    by (simp only: ffx_odd_halves(1) [OF assms r])
next
  assume r: "ffx_reachable pr key l s" and "0 \<le> x \<and> x < 2 ^ nat l"
  then have x: "0 \<le> x" "x < 2 ^ nat l" by simp_all
  show "uint (Uint64 (drop_bit (nat l div 2 + 1) x)) = drop_bit (nat l div 2 + 1) x"
    by (rule ffx_odd_input(1) [OF assms r x])
next
  assume r: "ffx_reachable pr key l s" and "0 \<le> x \<and> x < 2 ^ nat l"
  then have x: "0 \<le> x" "x < 2 ^ nat l" by simp_all
  show "drop_bit (nat l div 2 + 1) x < 2 ^ (nat l div 2)"
    by (rule ffx_odd_input(2) [OF assms r x])
next
  assume r: "ffx_reachable pr key l s" and "0 \<le> x \<and> x < 2 ^ nat l"
  then have x: "0 \<le> x" "x < 2 ^ nat l" by simp_all
  show "uint (Uint64 (take_bit (nat l div 2 + 1) x)) = take_bit (nat l div 2 + 1) x"
    by (rule ffx_odd_input(3) [OF assms r x])
next
  show "take_bit (nat l div 2 + 1) x < 2 ^ (nat l div 2 + 1)" by (rule take_bit_int_less_exp)
next
  fix i B s' f
  assume r: "ffx_reachable pr key l s" and f: "FFX_RoundFunc s i B = Inr (s', f)"
  have L: "ffx_lengthBits s = nat l" by (rule ffx_reachable_permutes(1) [OF r])
  from FFX_RoundFunc_width [OF f]
  show "uint f < 2 ^ (if even i then nat l div 2 else nat l div 2 + 1)"
    by (simp only: ffx_width_def L ffx_odd_halves(1) [OF assms r])
next
  assume r: "fs_reachable pr key l t"
  show "nat l div 2 + (nat l div 2 + 1) = nat l" by (rule fs_odd_halves(2) [OF assms r])
next
  assume r: "fs_reachable pr key l t"
  show "FS_PermuteInPlace t x tw =
          (case fs_round_loop (fs_rounds t) t tw 0
                  (drop_bit (nat l div 2) x) (take_bit (nat l div 2) x) of
             Inl e \<Rightarrow> Inl e
           | Inr (t', a', b') \<Rightarrow> Inr (t', push_bit (nat l div 2) a' OR b'))"
    by (rule FS_PermuteInPlace_split [OF r])
next
  assume r: "fs_reachable pr key l t" and "0 \<le> x \<and> x < 2 ^ nat l"
  then have x: "0 \<le> x" "x < 2 ^ nat l" by simp_all
  show "0 \<le> drop_bit (nat l div 2) x" by (rule fs_odd_input(1) [OF assms r x])
next
  assume r: "fs_reachable pr key l t" and "0 \<le> x \<and> x < 2 ^ nat l"
  then have x: "0 \<le> x" "x < 2 ^ nat l" by simp_all
  show "drop_bit (nat l div 2) x < 2 ^ (nat l div 2 + 1)" by (rule fs_odd_input(2) [OF assms r x])
next
  show "0 \<le> take_bit (nat l div 2) x" by simp
next
  show "take_bit (nat l div 2) x < 2 ^ (nat l div 2)" by (rule take_bit_int_less_exp)
next
  fix i b t' f
  assume r: "fs_reachable pr key l t" and f: "FS_RoundFunc t i b tw = Inr (t', f)"
  show "0 \<le> f" by (rule FS_RoundFunc_width(1) [OF f])
next
  fix i b t' f
  assume r: "fs_reachable pr key l t" and f: "FS_RoundFunc t i b tw = Inr (t', f)"
  have L: "fs_lengthBits t = nat l" by (rule fs_reachable_permutes(1) [OF r])
  from FS_RoundFunc_width(2) [OF f]
  show "f < 2 ^ (if even i then nat l div 2 + 1 else nat l div 2)"
    by (simp only: fs_width_def L fs_odd_halves(1) [OF assms r])
qed


theorem odd_width_halves_witness:
  "\<exists>s t. NewFFX toy_prims [1] 9 = Inr s \<and> NewPowerOf2 toy_prims [1] 3 = Inr t \<and>
     FFX_PermuteInPlace s 363 [7] =
       (case ffx_round_loop (ffx_rounds s)
               ((calculateEncryptedP s 4 (int (length [7::byte])))\<lparr>ffx_q := build_q [7]\<rparr>) 0
               (Uint64 (drop_bit 5 363)) (Uint64 (take_bit 5 363)) of
          Inl e \<Rightarrow> Inl e
        | Inr (s3, a', b') \<Rightarrow> Inr (s3, push_bit 5 (uint a') OR uint b')) \<and>
     drop_bit 5 (363::int) < 2 ^ 4 \<and>
     FS_PermuteInPlace t 5 [7] =
       (case fs_round_loop (fs_rounds t) t [7] 0 (drop_bit 1 5) (take_bit 1 5) of
          Inl e \<Rightarrow> Inl e
        | Inr (t', a', b') \<Rightarrow> Inr (t', push_bit 1 a' OR b')) \<and>
     drop_bit 1 (5::int) < 2 ^ 2"
proof -
  from NewFFX_ok [of 9 toy_prims "[1]"] obtain s where s: "NewFFX toy_prims [1] 9 = Inr s"
    by auto
  then have rs: "ffx_reachable toy_prims [1] 9 s" by (rule ffx_new)
  from NewPowerOf2_ok [of 3 toy_prims "[1]"] obtain t where
    t: "NewPowerOf2 toy_prims [1] 3 = Inr t" by auto
  then have rt: "fs_reachable toy_prims [1] 3 t" by (rule fs_new)
  have o9: "odd (9::int)" and o3: "odd (3::int)" by simp_all
  have e9: "nat 9 div 2 = 4" "(4::nat) + 1 = 5" and e3: "nat 3 div 2 = 1" "(1::nat) + 1 = 2"
    by simp_all
  have x9: "(0::int) \<le> 363 \<and> (363::int) < 2 ^ nat 9" and x3: "(0::int) \<le> 5 \<and> (5::int) < 2 ^ nat 3"
    by simp_all
  note f = odd_width_halves [OF o9, where pr = toy_prims and key = "[1]" and s = s
      and x = 363 and tw = "[7]", THEN conjunct1, THEN mp, OF rs, THEN conjunct2]
  note g = odd_width_halves [OF o3, where pr = toy_prims and key = "[1]" and t = t
      and x = 5 and tw = "[7]", THEN conjunct2, THEN mp, OF rt, THEN conjunct2]
  note c1 = f [THEN conjunct1, unfolded e9]
  note c2 = f [THEN conjunct2, THEN conjunct1, THEN mp, OF x9, THEN conjunct2, THEN conjunct1,
      unfolded e9]
  note c3 = g [THEN conjunct1, unfolded e3]
  note c4 = g [THEN conjunct2, THEN conjunct1, THEN mp, OF x3, THEN conjunct2, THEN conjunct1,
      unfolded e3]
  show ?thesis
  proof (rule exI [of _ s], rule exI [of _ t], intro conjI)
    show "NewFFX toy_prims [1] 9 = Inr s" by (rule s)
    show "NewPowerOf2 toy_prims [1] 3 = Inr t" by (rule t)
  qed (rule c1 c2 c3 c4)+
qed

end
